theory Spec2Isabelle
  imports Main "HOL-Library.Word" "HOL-Library.Sublist" "HOL-Library.List_Lexorder"
    "HOL-Library.Multiset"
begin

section \<open>Strings, paths and the collaborators of convert\_zh\<close>

text \<open>
  A Python \<open>str\<close> is a sequence of Unicode code points and is compared code point by
  code point; it is modelled as a list of naturals. \<open>bytes\<close> is a list of octets.
  A \<open>pathlib.Path\<close> is modelled by its \<open>parts\<close>: the list of its components, the
  anchor first. Paths compare as their lists of components do (POSIX flavour).
\<close>

type_synonym str = "nat list"
type_synonym bytes = "8 word list"
type_synonym path = "str list"
type_synonym encoding = string

definition ascii :: "string \<Rightarrow> str" where
  "ascii s = map of_char s"

definition dot :: nat where "dot = 46"
definition slash :: nat where "slash = 47"
definition newline :: nat where "newline = 10"

text \<open>\<open>str.split(sep)\<close> for a one-character separator: never returns the empty list.\<close>

fun split_on :: "'a \<Rightarrow> 'a list \<Rightarrow> 'a list list" where
  "split_on c [] = [[]]"
| "split_on c (x # xs) =
     (if x = c then [] # split_on c xs
      else (case split_on c xs of [] \<Rightarrow> [[x]] | l # ls \<Rightarrow> (x # l) # ls))"

text \<open>\<open>str.rfind(c)\<close>: the highest index at which \<open>c\<close> occurs, or \<open>-1\<close>.\<close>

fun rfind :: "'a \<Rightarrow> 'a list \<Rightarrow> int" where
  "rfind c [] = -1"
| "rfind c (x # xs) =
     (let r = rfind c xs in if 0 \<le> r then r + 1 else if x = c then 0 else -1)"

text \<open>
  \<open>PurePath.suffix\<close> and \<open>PurePath.stem\<close> of a final component \<open>name\<close>
  (pathlib up to Python 3.13):
  \<^verbatim>\<open>i = name.rfind('.'); if 0 < i < len(name) - 1: name[i:] / name[:i] else '' / name\<close>
\<close>

definition suffix_of :: "str \<Rightarrow> str" where
  "suffix_of name =
     (let i = rfind dot name
      in if 0 < i \<and> i < int (length name) - 1 then drop (nat i) name else [])"

definition stem_of :: "str \<Rightarrow> str" where
  "stem_of name =
     (let i = rfind dot name
      in if 0 < i \<and> i < int (length name) - 1 then take (nat i) name else name)"

text \<open>
  How pathlib (POSIX flavour) cuts a string into components: at the separators, dropping
  empty and \<open>.\<close> components. A string that starts with a separator is absolute; its
  anchor is \<open>/\<close>, or \<open>//\<close> when it starts with exactly two separators.
\<close>

definition components :: "str \<Rightarrow> path" where
  "components s = filter (\<lambda>c. c \<noteq> [] \<and> c \<noteq> [dot]) (split_on slash s)"

definition anchor :: "str \<Rightarrow> str" where
  "anchor s =
     (if take 1 s \<noteq> [slash] then []
      else if take 2 s = [slash, slash] \<and> take 3 s \<noteq> [slash, slash, slash] then [slash, slash]
      else [slash])"

text \<open>\<open>Path(s).name\<close> for a string \<open>s\<close>: the last component, or the empty string when
  there is none.\<close>

definition str_name :: "str \<Rightarrow> str" where
  "str_name s = (case components s of [] \<Rightarrow> [] | cs \<Rightarrow> last cs)"

text \<open>
  \<open>Path.name\<close>, \<open>Path.parent\<close> and \<open>parent / name\<close> on lists of parts. A part that
  holds a separator is an anchor: it has no name and is its own parent. Joining an
  absolute string replaces the path; otherwise the components of the string are
  appended. (The file system below looks a path up by its parts as they are: \<open>..\<close> is not
  resolved.)
\<close>

definition name_of :: "path \<Rightarrow> str" where
  "name_of p = (if p = [] \<or> slash \<in> set (last p) then [] else last p)"

definition parent :: "path \<Rightarrow> path" where
  "parent p = (if p \<noteq> [] \<and> slash \<in> set (last p) then p else butlast p)"

definition joinpath :: "path \<Rightarrow> str \<Rightarrow> path" where
  "joinpath d n = (if anchor n \<noteq> [] then anchor n # components n else d @ components n)"

subsection \<open>Exceptions\<close>

datatype py_error =
    FileNotFoundError
  | PermissionError
  | IsADirectoryError
  | NotADirectoryError
  | UnicodeDecodeError
  | UnicodeEncodeError
  | LookupError

text \<open>What \<open>bytes.decode\<close> raises: \<open>UnicodeDecodeError\<close> for bytes that are invalid in the
  codec, \<open>LookupError\<close> for a codec that Python does not know.\<close>

datatype decode_error = InvalidBytes | UnknownCodec

fun raise_decode_error :: "decode_error \<Rightarrow> py_error" where
  "raise_decode_error InvalidBytes = UnicodeDecodeError"
| "raise_decode_error UnknownCodec = LookupError"

subsection \<open>External collaborators\<close>

text \<open>
  The libraries the program calls are parameters of the model:
  \<^item> \<open>cc\<close>: \<open>OpenCC(conversion).convert\<close>;
  \<^item> \<open>best\<close>: the encoding of \<open>charset_normalizer.from_bytes(raw).best()\<close>, \<open>None\<close>
    when there is no match;
  \<^item> \<open>decode enc raw\<close>: \<open>raw.decode(enc)\<close> with strict error handling;
  \<^item> \<open>decode_replace\<close>: \<open>raw.decode("gb18030", errors="replace")\<close>, which returns for
    every input;
  \<^item> \<open>encode enc s\<close>: the bytes a text-mode file opened with \<open>encoding=enc\<close> writes for
    \<open>s\<close> (strict error handling, no newline translation: POSIX);
  \<^item> \<open>lower\<close>: \<open>str.lower\<close>.
\<close>

record env =
  cc :: "str \<Rightarrow> str"
  best :: "bytes \<Rightarrow> encoding option"
  decode :: "encoding \<Rightarrow> bytes \<Rightarrow> decode_error + str"
  decode_replace :: "bytes \<Rightarrow> str"
  encode :: "encoding \<Rightarrow> str \<Rightarrow> py_error + bytes"
  lower :: "str \<Rightarrow> str"

section \<open>converter.py\<close>

text \<open>\<open>ChineseConverter.convert\<close>: the empty string is returned as it is.\<close>

definition convert :: "env \<Rightarrow> str \<Rightarrow> str" where
  "convert E t = (if t = [] then t else cc E t)"

text \<open>\<open>ChineseConverter.convert_filename\<close>.\<close>

definition convert_filename :: "env \<Rightarrow> str \<Rightarrow> str" where
  "convert_filename E filename =
     (let name = str_name filename;
          stem = stem_of name;
          suffix = suffix_of name;
          converted_stem = convert E stem
      in converted_stem @ suffix)"

definition has_changes :: "env \<Rightarrow> str \<Rightarrow> bool" where
  "has_changes E t \<longleftrightarrow> convert E t \<noteq> t"

section \<open>The file system\<close>

text \<open>
  The directory tree is a list of entries, one per path, in the order in which the
  operating system lists them. A regular file carries its permission to be read and to
  be written and its content; a directory carries nothing (its entries are the paths
  below it). Links and the permissions of directories are not modelled.
\<close>

datatype node = File (readable: bool) (writable: bool) (data: bytes) | Dir

type_synonym filesystem = "(path \<times> node) list"

definition lookup :: "filesystem \<Rightarrow> path \<Rightarrow> node option" where
  "lookup fs p = map_of fs p"

definition exists :: "filesystem \<Rightarrow> path \<Rightarrow> bool" where
  "exists fs p \<longleftrightarrow> lookup fs p \<noteq> None"

definition is_file :: "filesystem \<Rightarrow> path \<Rightarrow> bool" where
  "is_file fs p \<longleftrightarrow> (case lookup fs p of Some (File _ _ _) \<Rightarrow> True | _ \<Rightarrow> False)"

definition is_dir :: "filesystem \<Rightarrow> path \<Rightarrow> bool" where
  "is_dir fs p \<longleftrightarrow> (case lookup fs p of Some Dir \<Rightarrow> True | _ \<Rightarrow> False)"

text \<open>\<open>directory.rglob("*")\<close>: every path strictly below \<open>directory\<close>, in listing order.\<close>

definition rglob :: "path \<Rightarrow> filesystem \<Rightarrow> path list" where
  "rglob d fs = filter (strict_prefix d) (map fst fs)"

text \<open>\<open>open(p, "rb").read()\<close>.\<close>

definition read_bytes :: "filesystem \<Rightarrow> path \<Rightarrow> py_error + bytes" where
  "read_bytes fs p =
     (case lookup fs p of
        None \<Rightarrow> Inl FileNotFoundError
      | Some Dir \<Rightarrow> Inl IsADirectoryError
      | Some (File r w b) \<Rightarrow> if r then Inr b else Inl PermissionError)"

text \<open>Replacing the content of the file at \<open>p\<close>.\<close>

definition set_content :: "path \<Rightarrow> bytes \<Rightarrow> filesystem \<Rightarrow> filesystem" where
  "set_content p b fs =
     map (\<lambda>(q, n). if q = p then (q, (case n of File r w _ \<Rightarrow> File r w b | Dir \<Rightarrow> Dir)) else (q, n)) fs"

text \<open>
  \<open>os.rename(src, dst)\<close> (POSIX) for a regular file \<open>src\<close> and \<open>dst \<noteq> src\<close> in the same
  directory: a missing source and a directory at the target raise; a regular file at the
  target is replaced.
\<close>

definition moved :: "path \<Rightarrow> path \<Rightarrow> filesystem \<Rightarrow> filesystem" where
  "moved src dst fs0 =
     map (\<lambda>(q, n). if q = src then (dst, n) else (q, n)) (filter (\<lambda>(q, n). q \<noteq> dst) fs0)"

definition rename_file :: "path \<Rightarrow> path \<Rightarrow> filesystem \<Rightarrow> py_error + filesystem" where
  "rename_file src dst fs0 =
     (if \<not> exists fs0 src then Inl FileNotFoundError
      else if is_dir fs0 dst then Inl IsADirectoryError
      else Inr (moved src dst fs0))"

text \<open>
  \<open>os.rename(src, dst)\<close> for a directory \<open>src\<close> whose target does not exist: the
  directory and everything below it move to the new prefix.
\<close>

definition reprefix :: "path \<Rightarrow> path \<Rightarrow> path \<Rightarrow> path" where
  "reprefix src dst q = (if prefix src q then dst @ drop (length src) q else q)"

definition rename_dir :: "path \<Rightarrow> path \<Rightarrow> filesystem \<Rightarrow> py_error + filesystem" where
  "rename_dir src dst fs =
     (if \<not> exists fs src then Inl FileNotFoundError
      else Inr (map (\<lambda>(q, n). (reprefix src dst q, n)) fs))"

section \<open>encoding.py\<close>

definition CHINESE_ENCODINGS :: "encoding list" where
  "CHINESE_ENCODINGS =
     [''gb18030'', ''gbk'', ''gb2312'', ''utf-8'', ''utf-8-sig'', ''big5'', ''big5hkscs'']"

text \<open>
  The loop over the candidate encodings of \<open>read_file_with_encoding\<close>: the first
  candidate that decodes is returned; \<open>UnicodeDecodeError\<close> and \<open>LookupError\<close> move on
  to the next candidate.
\<close>

fun try_encodings :: "env \<Rightarrow> bytes \<Rightarrow> encoding list \<Rightarrow> (str \<times> encoding) option" where
  "try_encodings E raw [] = None"
| "try_encodings E raw (enc # encs) =
     (case decode E enc raw of
        Inr content \<Rightarrow> Some (content, enc)
      | Inl _ \<Rightarrow> try_encodings E raw encs)"

text \<open>
  \<open>read_file_with_encoding\<close>. The first attempt, with the detector's encoding, catches
  \<open>UnicodeDecodeError\<close> only. The calls of the module's logger (debug and warning) do
  not change any value modelled here and are left out.
\<close>

definition decode_data :: "env \<Rightarrow> bytes \<Rightarrow> py_error + (str \<times> encoding)" where
  "decode_data E raw =
     (let fallback =
            (case try_encodings E raw CHINESE_ENCODINGS of
               Some r \<Rightarrow> Inr r
             | None \<Rightarrow> Inr (decode_replace E raw, ''gb18030''))
      in case best E raw of
           None \<Rightarrow> fallback
         | Some enc \<Rightarrow>
             (case decode E enc raw of
                Inr content \<Rightarrow> Inr (content, enc)
              | Inl InvalidBytes \<Rightarrow> fallback
              | Inl UnknownCodec \<Rightarrow> Inl (raise_decode_error UnknownCodec)))"

definition read_file_with_encoding :: "env \<Rightarrow> filesystem \<Rightarrow> path \<Rightarrow> py_error + (str \<times> encoding)" where
  "read_file_with_encoding E fs p =
     (case read_bytes fs p of
        Inl e \<Rightarrow> Inl e
      | Inr raw \<Rightarrow> decode_data E raw)"

text \<open>
  \<open>write_file_with_encoding\<close>: \<open>open(p, "w", encoding=enc)\<close> creates the file when it
  is missing and its directory exists, and truncates it otherwise, before anything is
  written; a failure to encode leaves the file empty. The result is the exception
  raised, if any, and the file system afterwards.
\<close>

definition write_file_with_encoding ::
  "env \<Rightarrow> path \<Rightarrow> str \<Rightarrow> encoding \<Rightarrow> filesystem \<Rightarrow> py_error option \<times> filesystem" where
  "write_file_with_encoding E p s enc fs0 =
     (case lookup fs0 p of
        None \<Rightarrow>
          if \<not> is_dir fs0 (parent p) then (Some FileNotFoundError, fs0)
          else (case encode E enc s of
                  Inl e \<Rightarrow> (Some e, fs0 @ [(p, File True True [])])
                | Inr out \<Rightarrow> (None, fs0 @ [(p, File True True out)]))
      | Some Dir \<Rightarrow> (Some IsADirectoryError, fs0)
      | Some (File r w b) \<Rightarrow>
          if \<not> w then (Some PermissionError, fs0)
          else (case encode E enc s of
                  Inl e \<Rightarrow> (Some e, set_content p [] fs0)
                | Inr out \<Rightarrow> (None, set_content p out fs0)))"

section \<open>file\_processor.py\<close>

subsection \<open>The state of a run\<close>

text \<open>
  What a run changes: the file system, the records handed to the processor's logger and
  the lines printed on standard output. The field \<open>visited\<close> is not a value of the
  program: it records, in order, the path each iteration of the two loops of
  \<open>process_directory\<close> takes up, so that the order of the run can be stated. A log record
  keeps the values its message is formatted from:
  \<^item> \<open>Failed p e\<close>: \<open>logger.error(f"Failed to process {file_path}: {e}")\<close>;
  \<^item> \<open>ConvertedContent p\<close>: \<open>logger.info(f"Converted content: {file_path}")\<close>;
  \<^item> \<open>Renamed a b\<close>: \<open>logger.info(f"Renamed: {file_path.name} -> {new_path.name}")\<close>;
  \<^item> \<open>RenamedDirectory a b\<close>: \<open>logger.info(f"Renamed directory: {dir_path.name} -> {new_name}")\<close>.

  An entry of the list \<open>changes\<close> of a dry run is its text, or, for
  \<open>f"Content: Error reading file - {e}"\<close>, the exception \<open>e\<close>.
\<close>

datatype log_record =
    Failed path py_error
  | ConvertedContent path
  | Renamed str str
  | RenamedDirectory str str

datatype change = Line str | ErrorLine py_error

datatype out_line = PathLine path | ChangeLine change

record state =
  fs :: filesystem
  log :: "log_record list"
  stdout :: "out_line list"
  visited :: "path list"

subsection \<open>The processor\<close>

record processor =
  extensions :: "str set"
  rename_files :: bool
  convert_content :: bool

text \<open>\<open>FileProcessor.__init__\<close>: \<open>extensions or [".txt"]\<close> takes the default for
  \<open>None\<close> and for the empty list, and every extension is lowercased.\<close>

definition extensions_or_default :: "str list option \<Rightarrow> str list" where
  "extensions_or_default exts =
     (case exts of None \<Rightarrow> [ascii ''.txt'']
      | Some xs \<Rightarrow> if xs = [] then [ascii ''.txt''] else xs)"

definition FileProcessor :: "env \<Rightarrow> str list option \<Rightarrow> bool \<Rightarrow> bool \<Rightarrow> processor" where
  "FileProcessor E exts rn cv =
     \<lparr> extensions = set (map (lower E) (extensions_or_default exts)),
       rename_files = rn,
       convert_content = cv \<rparr>"

definition scan_directory :: "env \<Rightarrow> processor \<Rightarrow> path \<Rightarrow> filesystem \<Rightarrow> path list" where
  "scan_directory E P directory fs0 =
     sort (filter (\<lambda>p. is_file fs0 p \<and> lower E (suffix_of (name_of p)) \<in> extensions P)
             (rglob directory fs0))"

subsection \<open>Dry run\<close>

text \<open>\<open>str(n)\<close> for a natural number.\<close>

fun str_nat :: "nat \<Rightarrow> str" where
  "str_nat n = (if n < 10 then [48 + n] else str_nat (n div 10) @ [48 + n mod 10])"

declare str_nat.simps [simp del]

text \<open>The number of changed lines of \<open>_log_dry_run\<close>:
  \<^verbatim>\<open>sum(1 for a, b in zip(original_lines, converted_lines) if a != b)\<close>.\<close>

definition changed_lines :: "str \<Rightarrow> str \<Rightarrow> nat" where
  "changed_lines content converted =
     (let original_lines = split_on newline content;
          converted_lines = split_on newline converted
      in length (filter (\<lambda>(a, b). a \<noteq> b) (zip original_lines converted_lines)))"

definition content_message :: "nat \<Rightarrow> str" where
  "content_message n = ascii ''Content: '' @ str_nat n @ ascii '' lines would change''"

definition rename_message :: "str \<Rightarrow> str \<Rightarrow> str" where
  "rename_message a b = ascii ''Rename: '' @ a @ ascii '' -> '' @ b"

text \<open>The first block of \<open>_log_dry_run\<close>: the entries that the content adds to
  \<open>changes\<close>. Reading is the only step that raises.\<close>

definition content_changes :: "env \<Rightarrow> processor \<Rightarrow> path \<Rightarrow> filesystem \<Rightarrow> change list" where
  "content_changes E P source fs0 =
     (if convert_content P then
        (case read_file_with_encoding E fs0 source of
           Inl e \<Rightarrow> [ErrorLine e]
         | Inr (content, _) \<Rightarrow>
             (let converted = convert E content
              in if content \<noteq> converted
                 then [Line (content_message (changed_lines content converted))]
                 else []))
      else [])"

text \<open>The second block: the entry for the new name.\<close>

definition rename_change :: "processor \<Rightarrow> path \<Rightarrow> path \<Rightarrow> change list" where
  "rename_change P source target =
     (if rename_files P \<and> name_of source \<noteq> name_of target
      then [Line (rename_message (name_of source) (name_of target))] else [])"

definition log_dry_run :: "env \<Rightarrow> processor \<Rightarrow> path \<Rightarrow> path \<Rightarrow> state \<Rightarrow> state" where
  "log_dry_run E P source target st =
     (let changes = content_changes E P source (fs st) @ rename_change P source target
      in if changes \<noteq> []
         then st\<lparr>stdout := stdout st @ PathLine source # map ChangeLine changes\<rparr>
         else st)"

subsection \<open>One file\<close>

text \<open>The block \<open>if self.convert_content:\<close> of \<open>process_file\<close> in apply mode: read,
  convert, write as UTF-8, log. The result is the exception raised, if any.\<close>

definition convert_file_content :: "env \<Rightarrow> path \<Rightarrow> state \<Rightarrow> py_error option \<times> state" where
  "convert_file_content E file_path st =
     (case read_file_with_encoding E (fs st) file_path of
        Inl e \<Rightarrow> (Some e, st)
      | Inr (content, original_encoding) \<Rightarrow>
          (let converted_content = convert E content
           in case write_file_with_encoding E file_path converted_content ''utf-8'' (fs st) of
                (Some e, fs1) \<Rightarrow> (Some e, st\<lparr>fs := fs1\<rparr>)
              | (None, fs1) \<Rightarrow>
                  (None, st\<lparr>fs := fs1, log := log st @ [ConvertedContent file_path]\<rparr>)))"

definition new_path_of :: "env \<Rightarrow> processor \<Rightarrow> path \<Rightarrow> path" where
  "new_path_of E P file_path =
     (if rename_files P
      then joinpath (parent file_path) (convert_filename E (name_of file_path))
      else file_path)"

definition process_file ::
  "env \<Rightarrow> processor \<Rightarrow> path \<Rightarrow> bool \<Rightarrow> state \<Rightarrow> (py_error + path) \<times> state" where
  "process_file E P file_path dry_run st =
     (let new_path = new_path_of E P file_path
      in if dry_run then (Inr new_path, log_dry_run E P file_path new_path st)
         else
           (case (if convert_content P then convert_file_content E file_path st
                  else (None, st)) of
              (Some e, st1) \<Rightarrow> (Inl e, st1)
            | (None, st1) \<Rightarrow>
                if rename_files P \<and> new_path \<noteq> file_path then
                  (case rename_file file_path new_path (fs st1) of
                     Inl e \<Rightarrow> (Inl e, st1)
                   | Inr fs2 \<Rightarrow>
                       (Inr new_path,
                        st1\<lparr>fs := fs2,
                            log := log st1 @ [Renamed (name_of file_path) (name_of new_path)]\<rparr>))
                else (Inr new_path, st1)))"

subsection \<open>Directories\<close>

text \<open>\<open>sorted(xs, key=lambda p: len(p.parts), reverse=True)\<close> and
  \<open>xs.sort(key=..., reverse=True)\<close>: descending in the number of parts and stable
  (paths with the same number of parts keep their order).\<close>

definition sort_deepest_first :: "path list \<Rightarrow> path list" where
  "sort_deepest_first xs = sort_key (\<lambda>p. - int (length p)) xs"

text \<open>The body of the loop of \<open>_rename_directories\<close>.\<close>

definition rename_directory :: "env \<Rightarrow> path \<Rightarrow> state \<Rightarrow> py_error option \<times> state" where
  "rename_directory E dir_path st =
     (let new_name = convert E (name_of dir_path)
      in if new_name \<noteq> name_of dir_path then
           (let new_path = joinpath (parent dir_path) new_name
            in if \<not> exists (fs st) new_path then
                 (case rename_dir dir_path new_path (fs st) of
                    Inl e \<Rightarrow> (Some e, st)
                  | Inr fs1 \<Rightarrow>
                      (None, st\<lparr>fs := fs1,
                                 log := log st @ [RenamedDirectory (name_of dir_path) new_name]\<rparr>))
               else (None, st))
         else (None, st))"

fun rename_each :: "env \<Rightarrow> path list \<Rightarrow> state \<Rightarrow> py_error option \<times> state" where
  "rename_each E [] st = (None, st)"
| "rename_each E (dir_path # dirs) st =
     (case rename_directory E dir_path (st\<lparr>visited := visited st @ [dir_path]\<rparr>) of
        (Some e, st1) \<Rightarrow> (Some e, st1)
      | (None, st1) \<Rightarrow> rename_each E dirs st1)"

definition directories_in_order :: "path \<Rightarrow> filesystem \<Rightarrow> path list" where
  "directories_in_order source_dir fs0 =
     sort_deepest_first (filter (is_dir fs0) (rglob source_dir fs0))"

definition rename_directories :: "env \<Rightarrow> path \<Rightarrow> state \<Rightarrow> py_error option \<times> state" where
  "rename_directories E source_dir st =
     rename_each E (directories_in_order source_dir (fs st)) st"

subsection \<open>The whole tree\<close>

text \<open>The loop over the files of \<open>process_directory\<close>, with its two counters: an
  exception of \<open>process_file\<close> is logged and counted, and the loop goes on in the state
  the failed call left.\<close>

fun process_files ::
  "env \<Rightarrow> processor \<Rightarrow> bool \<Rightarrow> path list \<Rightarrow> nat \<times> nat \<times> state \<Rightarrow> nat \<times> nat \<times> state" where
  "process_files E P dry_run [] acc = acc"
| "process_files E P dry_run (file_path # files) (success_count, failure_count, st) =
     (case process_file E P file_path dry_run (st\<lparr>visited := visited st @ [file_path]\<rparr>) of
        (Inr _, st1) \<Rightarrow>
          process_files E P dry_run files (success_count + 1, failure_count, st1)
      | (Inl e, st1) \<Rightarrow>
          process_files E P dry_run files
            (success_count, failure_count + 1, st1\<lparr>log := log st1 @ [Failed file_path e]\<rparr>))"

definition files_in_order :: "env \<Rightarrow> processor \<Rightarrow> path \<Rightarrow> filesystem \<Rightarrow> path list" where
  "files_in_order E P source_dir fs0 = sort_deepest_first (scan_directory E P source_dir fs0)"

text \<open>\<open>process_directory\<close>: an exception of \<open>_rename_directories\<close> is not caught and
  ends the call without a result.\<close>

definition process_directory ::
  "env \<Rightarrow> processor \<Rightarrow> path \<Rightarrow> bool \<Rightarrow> state \<Rightarrow> (py_error + nat \<times> nat) \<times> state" where
  "process_directory E P source_dir dry_run st =
     (let files = files_in_order E P source_dir (fs st);
          (success_count, failure_count, st1) = process_files E P dry_run files (0, 0, st)
      in if rename_files P \<and> \<not> dry_run then
           (case rename_directories E source_dir st1 of
              (Some e, st2) \<Rightarrow> (Inl e, st2)
            | (None, st2) \<Rightarrow> (Inr (success_count, failure_count), st2))
         else (Inr (success_count, failure_count), st1))"

section \<open>Notions used to state the properties\<close>

text \<open>
  The outcome of the fallback chain of \<open>read_file_with_encoding\<close> as the specification
  words it: the first candidate, in the order of the list, that decodes the buffer, or,
  when every candidate fails, the lossy GB18030 decoding.
\<close>

definition first_success_or_lossy :: "env \<Rightarrow> bytes \<Rightarrow> encoding list \<Rightarrow> str \<times> encoding \<Rightarrow> bool" where
  "first_success_or_lossy E raw cands r \<longleftrightarrow>
     (\<exists>i < length cands. snd r = cands ! i \<and> decode E (cands ! i) raw = Inr (fst r)
        \<and> (\<forall>j < i. isl (decode E (cands ! j) raw)))
   \<or> ((\<forall>enc \<in> set cands. isl (decode E enc raw)) \<and> r = (decode_replace E raw, ''gb18030''))"

text \<open>The failures recorded in a log: the path and the exception of every error record.\<close>

fun failures :: "log_record list \<Rightarrow> (path \<times> py_error) list" where
  "failures [] = []"
| "failures (Failed p e # rs) = (p, e) # failures rs"
| "failures (_ # rs) = failures rs"

text \<open>
  The attempts of the loop over the files: each path of the list with what
  \<open>process_file\<close> returned or raised for it, in the state the loop had reached; and, of
  these, the ones that raised.
\<close>

fun attempts ::
  "env \<Rightarrow> processor \<Rightarrow> bool \<Rightarrow> path list \<Rightarrow> state \<Rightarrow> (path \<times> (py_error + path)) list" where
  "attempts E P dry_run [] st = []"
| "attempts E P dry_run (p # ps) st =
     (case process_file E P p dry_run st of
        (Inr np, st1) \<Rightarrow> (p, Inr np) # attempts E P dry_run ps st1
      | (Inl e, st1) \<Rightarrow>
          (p, Inl e) # attempts E P dry_run ps (st1\<lparr>log := log st1 @ [Failed p e]\<rparr>))"

fun raised :: "(path \<times> (py_error + path)) list \<Rightarrow> (path \<times> py_error) list" where
  "raised [] = []"
| "raised ((p, Inl e) # xs) = (p, e) # raised xs"
| "raised ((p, Inr _) # xs) = raised xs"

text \<open>\<open>str(path)\<close>: the parts joined by the separator, after the anchor if there is one;
  \<open>.\<close> for the empty path.\<close>

fun join_parts :: "path \<Rightarrow> str" where
  "join_parts [] = []"
| "join_parts [a] = a"
| "join_parts (a # b # rest) = a @ slash # join_parts (b # rest)"

definition path_str :: "path \<Rightarrow> str" where
  "path_str p =
     (if p = [] then [dot]
      else if slash \<in> set (hd p) then hd p @ join_parts (tl p)
      else join_parts p)"

section \<open>A sample environment and a sample tree\<close>

text \<open>
  Concrete collaborators on which the definitions above can be run. The converter
  replaces U+6D4B by U+6E2C and U+8BD5 by U+8A66 and leaves every other character as
  it is. The UTF-8 codec covers the one-byte and the three-byte forms; the other
  codecs of the candidate list decode ASCII input only.
\<close>

definition sample_cc :: "str \<Rightarrow> str" where
  "sample_cc s = map (\<lambda>c. if c = 27979 then 28204 else if c = 35797 then 35430 else c) s"

fun utf8_encode :: "str \<Rightarrow> bytes option" where
  "utf8_encode [] = Some []"
| "utf8_encode (c # cs) =
     (if c < 128 then map_option ((#) (of_nat c)) (utf8_encode cs)
      else if 2048 \<le> c \<and> c < 55296 then
        map_option (\<lambda>r. of_nat (224 + c div 4096) # of_nat (128 + c div 64 mod 64)
                         # of_nat (128 + c mod 64) # r) (utf8_encode cs)
      else None)"

fun utf8_decode :: "bytes \<Rightarrow> str option" where
  "utf8_decode [] = Some []"
| "utf8_decode (b # bs) =
     (if unat b < 128 then map_option ((#) (unat b)) (utf8_decode bs)
      else if 224 \<le> unat b \<and> unat b < 240 then
        (case bs of
           b1 # b2 # rest \<Rightarrow>
             (let c = (unat b - 224) * 4096 + (unat b1 - 128) * 64 + (unat b2 - 128)
              in if 128 \<le> unat b1 \<and> unat b1 < 192 \<and> 128 \<le> unat b2 \<and> unat b2 < 192
                    \<and> 2048 \<le> c \<and> c < 55296
                 then map_option ((#) c) (utf8_decode rest) else None)
         | _ \<Rightarrow> None)
      else None)"

definition sample_decode :: "encoding \<Rightarrow> bytes \<Rightarrow> decode_error + str" where
  "sample_decode enc raw =
     (if enc = ''utf-8'' \<or> enc = ''utf_8'' then
        (case utf8_decode raw of Some s \<Rightarrow> Inr s | None \<Rightarrow> Inl InvalidBytes)
      else if enc \<in> set CHINESE_ENCODINGS then
        (if list_all (\<lambda>b. unat b < 128) raw then Inr (map unat raw) else Inl InvalidBytes)
      else Inl UnknownCodec)"

definition sample_encode :: "encoding \<Rightarrow> str \<Rightarrow> py_error + bytes" where
  "sample_encode enc s =
     (if enc = ''utf-8'' then
        (case utf8_encode s of Some b \<Rightarrow> Inr b | None \<Rightarrow> Inl UnicodeEncodeError)
      else Inl LookupError)"

definition sample_env :: env where
  "sample_env =
     \<lparr> cc = sample_cc,
       best = (\<lambda>raw. if utf8_decode raw = None then None else Some ''utf_8''),
       decode = sample_decode,
       decode_replace = map (\<lambda>b. if unat b < 128 then unat b else 65533),
       encode = sample_encode,
       lower = map (\<lambda>c. if 65 \<le> c \<and> c \<le> 90 then c + 32 else c) \<rparr>"

definition sample_processor :: processor where
  "sample_processor = FileProcessor sample_env None True True"

text \<open>
  The tree \<open>root/\<close> with a subdirectory, two text files and a file that is not in
  scope; the second text file cannot be read. The first holds the three lines
  \<open>abc\<close>, U+6D4B U+8BD5 and \<open>xyz\<close> in UTF-8.
\<close>

definition root :: path where
  "root = [ascii ''root'']"

definition sample_bytes :: bytes where
  "sample_bytes = [97, 98, 99, 10, 230, 181, 139, 232, 175, 149, 10, 120, 121, 122]"

definition sample_dir :: path where
  "sample_dir = root @ [[27979, 35797]]"

definition sample_file :: path where
  "sample_file = sample_dir @ [27979 # ascii ''.TXT'']"

definition locked_file :: path where
  "locked_file = root @ [ascii ''locked.txt'']"

definition sample_fs :: filesystem where
  "sample_fs =
     [(root, Dir),
      (root @ [ascii ''notes.md''], File True True [104, 105]),
      (sample_dir, Dir),
      (sample_file, File True True sample_bytes),
      (locked_file, File False True [97])]"

text \<open>The same tree with a directory already at the place to which \<open>sample_dir\<close>
  would be renamed.\<close>

definition collision_fs :: filesystem where
  "collision_fs = sample_fs @ [(root @ [[28204, 35430]], Dir)]"

text \<open>A tree with one text file whose bytes are not valid in any candidate encoding
  of the sample environment.\<close>

definition garbled_fs :: filesystem where
  "garbled_fs = [(root, Dir), (root @ [ascii ''a.txt''], File True True [97, 255])]"

text \<open>The path, the content and the state of \<open>sample_file\<close> after it has been processed
  in apply mode.\<close>

definition sample_target :: path where
  "sample_target = sample_dir @ [28204 # ascii ''.TXT'']"

definition converted_bytes :: bytes where
  "converted_bytes = [97, 98, 99, 10, 230, 184, 172, 232, 169, 166, 10, 120, 121, 122]"

definition sample_state :: state where
  "sample_state = \<lparr> fs = sample_fs, log = [], stdout = [], visited = [] \<rparr>"

definition sample_after :: state where
  "sample_after =
     sample_state\<lparr>fs := moved sample_file sample_target (set_content sample_file converted_bytes sample_fs),
         log := [ConvertedContent sample_file, Renamed (27979 # ascii ''.TXT'') (28204 # ascii ''.TXT'')]\<rparr>"

text \<open>A tree in which the converted name of one text file is the name of another.\<close>

definition twin_old :: path where
  "twin_old = root @ [27979 # ascii ''.txt'']"

definition twin_new :: path where
  "twin_new = root @ [28204 # ascii ''.txt'']"

definition twins_fs :: filesystem where
  "twins_fs = [(root, Dir), (twin_old, File True True [97]), (twin_new, File True True [98])]"

definition twins_state :: state where
  "twins_state = \<lparr> fs = twins_fs, log = [], stdout = [], visited = [] \<rparr>"

text \<open>A processor that renames only, and a tree with a directory inside a directory; the
  inner directory is listed last.\<close>

definition renaming_only :: processor where
  "renaming_only = FileProcessor sample_env None True False"

definition nested_dir :: path where
  "nested_dir = sample_dir @ [[35797]]"

definition nested_file :: path where
  "nested_file = nested_dir @ [ascii ''a.txt'']"

definition nested_fs :: filesystem where
  "nested_fs = [(root, Dir), (sample_dir, Dir), (nested_file, File True True [97]), (nested_dir, Dir)]"

definition nested_state :: state where
  "nested_state = \<lparr> fs = nested_fs, log = [], stdout = [], visited = [] \<rparr>"

text \<open>A tree with the files \<open>root/a/b.txt\<close> and \<open>root/a-b.txt\<close>.\<close>

definition dash_inner :: path where
  "dash_inner = root @ [ascii ''a'', ascii ''b.txt'']"

definition dash_outer :: path where
  "dash_outer = root @ [ascii ''a-b.txt'']"

definition dash_fs :: filesystem where
  "dash_fs =
     [(root, Dir), (dash_outer, File True True [97]), (root @ [ascii ''a''], Dir),
      (dash_inner, File True True [98])]"

section \<open>Properties of converter.py\<close>

lemma ascii_simps: "ascii [] = []" "ascii (c # cs) = of_char c # ascii cs"
  by (simp_all add: ascii_def)

lemma rfind_lower: "- 1 \<le> rfind c xs"
  by (induction xs) (auto simp: Let_def)

lemma rfind_upper: "rfind c xs < int (length xs)"
  by (induction xs) (auto simp: Let_def)

lemma rfind_notin: "c \<notin> set xs \<Longrightarrow> rfind c xs = - 1"
  by (induction xs) (auto simp: Let_def)

lemma rfind_in: "c \<in> set xs \<Longrightarrow> 0 \<le> rfind c xs"
  by (induction xs) (auto simp: Let_def)

lemma rfind_last: "c \<notin> set e \<Longrightarrow> rfind c (s @ c # e) = int (length s)"
  by (induction s) (auto simp: Let_def rfind_notin)

lemma rfind_hit: "0 \<le> rfind c xs \<Longrightarrow> xs ! nat (rfind c xs) = c \<and> c \<notin> set (drop (Suc (nat (rfind c xs))) xs)"
proof (induction xs)
  case Nil then show ?case by simp
next
  case (Cons x xs)
  show ?case
  proof (cases "0 \<le> rfind c xs")
    case True
    then have "nat (rfind c xs + 1) = Suc (nat (rfind c xs))" by simp
    with True Cons.IH show ?thesis by (simp add: Let_def)
  next
    case False
    with Cons.prems have xc: "x = c" by (auto simp: Let_def split: if_splits)
    from False rfind_in[of c xs] have "c \<notin> set xs" by auto
    with False xc show ?thesis by (simp add: Let_def)
  qed
qed

lemma stem_suffix: "stem_of n @ suffix_of n = n"
  by (simp add: stem_of_def suffix_of_def Let_def)

lemma split_on_single: "c \<notin> set xs \<Longrightarrow> split_on c xs = [xs]"
  by (induction xs) auto

lemma components_single:
  "slash \<notin> set f \<Longrightarrow> f \<noteq> [] \<Longrightarrow> f \<noteq> [dot] \<Longrightarrow> components f = [f]"
  by (simp add: components_def split_on_single)

lemma str_name_single: "slash \<notin> set f \<Longrightarrow> f \<noteq> [] \<Longrightarrow> f \<noteq> [dot] \<Longrightarrow> str_name f = f"
  by (simp add: str_name_def components_single)

lemma anchor_none: "slash \<notin> set f \<Longrightarrow> anchor f = []"
  by (cases f) (auto simp: anchor_def)

lemma joinpath_single:
  "slash \<notin> set f \<Longrightarrow> f \<noteq> [] \<Longrightarrow> f \<noteq> [dot] \<Longrightarrow> joinpath d f = d @ [f]"
  by (simp add: joinpath_def anchor_none components_single)

lemma name_of_snoc: "slash \<notin> set f \<Longrightarrow> name_of (d @ [f]) = f"
  by (simp add: name_of_def)

lemma parent_snoc: "slash \<notin> set f \<Longrightarrow> parent (d @ [f]) = d"
  by (simp add: parent_def)

lemma split_ext:
  assumes "s \<noteq> []" "e \<noteq> []" "dot \<notin> set e"
  shows "stem_of (s @ dot # e) = s" "suffix_of (s @ dot # e) = dot # e"
  using assms by (simp_all add: stem_of_def suffix_of_def Let_def rfind_last)

text \<open>
  Claim C8. For a file name (one path component), \<open>convert_filename\<close> converts the stem
  and appends the suffix as it is; stem and suffix together are the name; in particular,
  for a name made of a non-empty stem \<open>s\<close> and an extension \<open>.e\<close> without a further dot,
  the result is the converted \<open>s\<close> followed by \<open>.e\<close> unchanged.
\<close>

theorem convert_filename_keeps_extension:
  assumes "slash \<notin> set filename" "filename \<noteq> []" "filename \<noteq> [dot]"
  shows "convert_filename E filename = convert E (stem_of filename) @ suffix_of filename
       \<and> stem_of filename @ suffix_of filename = filename
       \<and> (\<forall>s e. filename = s @ dot # e \<and> s \<noteq> [] \<and> e \<noteq> [] \<and> dot \<notin> set e
              \<longrightarrow> convert_filename E filename = convert E s @ dot # e)"
  using assms by (auto simp: convert_filename_def str_name_single stem_suffix split_ext Let_def)

theorem convert_filename_keeps_extension_witness:
  "convert_filename sample_env ([27979, 35797] @ ascii ''.txt'')
     = convert sample_env [27979, 35797] @ dot # ascii ''txt''"
proof -
  let ?f = "[27979, 35797] @ ascii ''.txt''"
  have h: "slash \<notin> set ?f" "?f \<noteq> []" "?f \<noteq> [dot]"
    by (simp_all add: slash_def dot_def ascii_simps)
  have e: "?f = [27979, 35797] @ dot # ascii ''txt'' \<and> [27979, 35797] \<noteq> ([] :: nat list) \<and> ascii ''txt'' \<noteq> [] \<and> dot \<notin> set (ascii ''txt'')"
    by (simp add: dot_def ascii_simps)
  from convert_filename_keeps_extension[OF h, of sample_env] e show ?thesis by blast
qed

section \<open>Properties of encoding.py\<close>

lemma try_encodings_None:
  "try_encodings E raw encs = None \<longleftrightarrow> (\<forall>enc \<in> set encs. isl (decode E enc raw))"
  by (induction encs) (auto split: sum.splits)

lemma try_encodings_Some:
  "try_encodings E raw encs = Some (c, enc) \<longleftrightarrow>
     (\<exists>i < length encs. encs ! i = enc \<and> decode E enc raw = Inr c
          \<and> (\<forall>j < i. isl (decode E (encs ! j) raw)))"
proof (induction encs)
  case Nil
  then show ?case by simp
next
  case (Cons a encs)
  show ?case
  proof (cases "decode E a raw")
    case (Inr c')
    have "(\<exists>i < length (a # encs). (a # encs) ! i = enc \<and> decode E enc raw = Inr c
          \<and> (\<forall>j < i. isl (decode E ((a # encs) ! j) raw))) \<longleftrightarrow> (a = enc \<and> c' = c)"
    proof
      assume "\<exists>i < length (a # encs). (a # encs) ! i = enc \<and> decode E enc raw = Inr c
          \<and> (\<forall>j < i. isl (decode E ((a # encs) ! j) raw))"
      then obtain i where i: "i < length (a # encs)" "(a # encs) ! i = enc" "decode E enc raw = Inr c"
          "\<forall>j < i. isl (decode E ((a # encs) ! j) raw)" by blast
      have "i = 0"
      proof (rule ccontr)
        assume "i \<noteq> 0"
        then have "isl (decode E ((a # encs) ! 0) raw)" using i(4) by blast
        with Inr show False by simp
      qed
      with i Inr show "a = enc \<and> c' = c" by simp
    next
      assume "a = enc \<and> c' = c"
      with Inr show "\<exists>i < length (a # encs). (a # encs) ! i = enc \<and> decode E enc raw = Inr c
          \<and> (\<forall>j < i. isl (decode E ((a # encs) ! j) raw))"
        by (intro exI[of _ 0]) simp
    qed
    with Inr show ?thesis by auto
  next
    case (Inl e)
    have "(\<exists>i < length (a # encs). (a # encs) ! i = enc \<and> decode E enc raw = Inr c
          \<and> (\<forall>j < i. isl (decode E ((a # encs) ! j) raw))) \<longleftrightarrow>
          (\<exists>i < length encs. encs ! i = enc \<and> decode E enc raw = Inr c
          \<and> (\<forall>j < i. isl (decode E (encs ! j) raw)))" (is "?L \<longleftrightarrow> ?R")
    proof
      assume ?L
      then obtain i where i: "i < length (a # encs)" "(a # encs) ! i = enc" "decode E enc raw = Inr c"
          "\<forall>j < i. isl (decode E ((a # encs) ! j) raw)" by blast
      from i Inl have "i \<noteq> 0" by (cases i) auto
      then obtain k where k: "i = Suc k" by (cases i) auto
      have "\<forall>j < k. isl (decode E (encs ! j) raw)"
      proof (intro allI impI)
        fix j assume "j < k"
        then have "Suc j < i" using k by simp
        with i(4) have "isl (decode E ((a # encs) ! Suc j) raw)" by blast
        then show "isl (decode E (encs ! j) raw)" by simp
      qed
      with i k show ?R by (intro exI[of _ k]) simp
    next
      assume ?R
      then obtain k where k: "k < length encs" "encs ! k = enc" "decode E enc raw = Inr c"
          "\<forall>j < k. isl (decode E (encs ! j) raw)" by blast
      have "\<forall>j < Suc k. isl (decode E ((a # encs) ! j) raw)"
      proof (intro allI impI)
        fix j assume "j < Suc k"
        then show "isl (decode E ((a # encs) ! j) raw)"
          using Inl k(4) by (cases j) auto
      qed
      with k show ?L by (intro exI[of _ "Suc k"]) simp
    qed
    with Inl Cons.IH show ?thesis by simp
  qed
qed

lemma fallback_total:
  "\<exists>r. (case try_encodings E raw cands of Some r \<Rightarrow> Inr r | None \<Rightarrow> Inr (decode_replace E raw, ''gb18030'')) = (Inr r :: py_error + str \<times> encoding)
      \<and> first_success_or_lossy E raw cands r"
proof (cases "try_encodings E raw cands")
  case None
  then have "\<forall>enc \<in> set cands. isl (decode E enc raw)" by (simp add: try_encodings_None)
  with None show ?thesis by (simp add: first_success_or_lossy_def)
next
  case (Some r)
  obtain c enc where r: "r = (c, enc)" by (cases r)
  with Some have "\<exists>i < length cands. cands ! i = enc \<and> decode E enc raw = Inr c
          \<and> (\<forall>j < i. isl (decode E (cands ! j) raw))" by (simp add: try_encodings_Some)
  then have "first_success_or_lossy E raw cands r" unfolding first_success_or_lossy_def r by auto
  with Some show ?thesis by simp
qed

text \<open>
  Claim C4. When the bytes of the file can be read, and the detector names a codec that
  Python has (the first attempt catches \<open>UnicodeDecodeError\<close> only),
  \<open>read_file_with_encoding\<close> returns a result: the decoding with the guess when that
  succeeds; otherwise the first success among gb18030, gbk, gb2312, utf-8, utf-8-sig,
  big5, big5hkscs in this order; and when all of them fail, the lossy GB18030 decoding.
  No decoding failure leaves the function as an exception.
\<close>

theorem read_file_with_encoding_total:
  assumes rd: "read_bytes fs0 p = Inr raw"
    and known: "\<forall>enc. best E raw = Some enc \<longrightarrow> decode E enc raw \<noteq> Inl UnknownCodec"
  shows "\<exists>r. read_file_with_encoding E fs0 p = Inr r
           \<and> (case best E raw of
                Some enc \<Rightarrow> (case decode E enc raw of Inr c \<Rightarrow> r = (c, enc)
                              | Inl _ \<Rightarrow> first_success_or_lossy E raw [''gb18030'', ''gbk'', ''gb2312'', ''utf-8'', ''utf-8-sig'', ''big5'', ''big5hkscs''] r)
              | None \<Rightarrow> first_success_or_lossy E raw [''gb18030'', ''gbk'', ''gb2312'', ''utf-8'', ''utf-8-sig'', ''big5'', ''big5hkscs''] r)"
proof -
  let ?cands = "[''gb18030'', ''gbk'', ''gb2312'', ''utf-8'', ''utf-8-sig'', ''big5'', ''big5hkscs'']"
  obtain r where r: "(case try_encodings E raw ?cands of Some r \<Rightarrow> Inr r | None \<Rightarrow> Inr (decode_replace E raw, ''gb18030'')) = (Inr r :: py_error + str \<times> encoding)"
     "first_success_or_lossy E raw ?cands r" using fallback_total[of E raw ?cands] by blast
  show ?thesis
  proof (cases "best E raw")
    case None
    with rd r show ?thesis
      by (simp add: read_file_with_encoding_def decode_data_def CHINESE_ENCODINGS_def)
  next
    case (Some enc)
    show ?thesis
    proof (cases "decode E enc raw")
      case (Inr c)
      with Some rd show ?thesis
        by (simp add: read_file_with_encoding_def decode_data_def)
    next
      case (Inl e)
      with known Some have "e = InvalidBytes" by (cases e) auto
      with Inl Some rd r show ?thesis
        by (simp add: read_file_with_encoding_def decode_data_def CHINESE_ENCODINGS_def)
    qed
  qed
qed

lemma all_fail_lossy:
  assumes "\<forall>enc \<in> set cands. isl (decode E enc raw)" "first_success_or_lossy E raw cands r"
  shows "r = (decode_replace E raw, ''gb18030'')"
proof -
  have "\<not> (\<exists>i < length cands. snd r = cands ! i \<and> decode E (cands ! i) raw = Inr (fst r)
        \<and> (\<forall>j < i. isl (decode E (cands ! j) raw)))"
  proof
    assume "\<exists>i < length cands. snd r = cands ! i \<and> decode E (cands ! i) raw = Inr (fst r)
        \<and> (\<forall>j < i. isl (decode E (cands ! j) raw))"
    then obtain i where i: "i < length cands" "decode E (cands ! i) raw = Inr (fst r)" by blast
    from i(1) assms(1) have "isl (decode E (cands ! i) raw)" by simp
    with i(2) show False by simp
  qed
  with assms(2) show ?thesis unfolding first_success_or_lossy_def by blast
qed

theorem read_file_with_encoding_total_witness:
  "read_file_with_encoding sample_env garbled_fs (root @ [ascii ''a.txt''])
     = Inr ([97, 65533], ''gb18030'')"
proof -
  let ?cands = "[''gb18030'', ''gbk'', ''gb2312'', ''utf-8'', ''utf-8-sig'', ''big5'', ''big5hkscs'']"
  have rd: "read_bytes garbled_fs (root @ [ascii ''a.txt'']) = Inr [97, 255]"
    by (simp add: read_bytes_def lookup_def garbled_fs_def root_def ascii_simps)
  have nb: "best sample_env [97, 255] = None" by (simp add: sample_env_def)
  then have known: "\<forall>enc. best sample_env [97, 255] = Some enc
      \<longrightarrow> decode sample_env enc [97, 255] \<noteq> Inl UnknownCodec"
    by simp
  have fail: "\<forall>enc \<in> set ?cands. isl (decode sample_env enc [97, 255])"
    by (simp add: sample_env_def sample_decode_def CHINESE_ENCODINGS_def)
  from read_file_with_encoding_total[OF rd known] nb obtain r where
    r: "read_file_with_encoding sample_env garbled_fs (root @ [ascii ''a.txt'']) = Inr r"
       "first_success_or_lossy sample_env [97, 255] ?cands r"
    by auto
  from all_fail_lossy[OF fail r(2)] have "r = ([97, 65533], ''gb18030'')"
    by (simp add: sample_env_def)
  with r(1) show ?thesis by simp
qed

section \<open>Properties of file\_processor.py\<close>

subsection \<open>The sample tree\<close>

lemmas sample_paths = root_def sample_dir_def sample_file_def locked_file_def ascii_simps

lemma sample_scan:
  "scan_directory sample_env sample_processor root sample_fs = [locked_file, sample_file]"
  by (simp add: scan_directory_def rglob_def sample_fs_def sample_paths is_file_def lookup_def
        sample_processor_def FileProcessor_def extensions_or_default_def sample_env_def
        name_of_def suffix_of_def dot_def slash_def Let_def)


lemma sample_dirs: "directories_in_order root sample_fs = [sample_dir]"
  by (simp add: directories_in_order_def rglob_def sample_fs_def sample_paths is_dir_def lookup_def
       sort_deepest_first_def)

lemma sample_read:
  "read_file_with_encoding sample_env sample_fs sample_file
     = Inr ([97, 98, 99, 10, 27979, 35797, 10, 120, 121, 122], ''utf_8'')"
  by (simp add: read_file_with_encoding_def read_bytes_def lookup_def sample_fs_def sample_paths
        decode_data_def sample_env_def sample_decode_def sample_bytes_def Let_def)

lemma failures_append: "failures (xs @ ys) = failures xs @ failures ys"
  by (induction xs rule: failures.induct) auto

lemma log_dry_run_fs: "fs (log_dry_run E P s t st) = fs st \<and> log (log_dry_run E P s t st) = log st"
  by (simp add: log_dry_run_def Let_def)

lemma process_file_dry:
  "\<exists>np st1. process_file E P p True st = (Inr np, st1) \<and> fs st1 = fs st \<and> log st1 = log st"
  by (simp add: process_file_def Let_def log_dry_run_fs)

lemma process_files_dry:
  "process_files E P True files (s, f, st) = (s', f', st') \<Longrightarrow>
     fs st' = fs st \<and> log st' = log st \<and> f' = f \<and> s' = s + length files"
proof (induction files arbitrary: s st)
  case Nil
  then show ?case by simp
next
  case (Cons p ps)
  let ?st = "st\<lparr>visited := visited st @ [p]\<rparr>"
  obtain np st1 where st1: "process_file E P p True ?st = (Inr np, st1)" "fs st1 = fs ?st" "log st1 = log ?st"
    using process_file_dry by blast
  with Cons.prems have "process_files E P True ps (s + 1, f, st1) = (s', f', st')" by simp
  from Cons.IH[OF this] st1 show ?case by simp
qed

text \<open>
  Claim C3. A dry run of \<open>process_directory\<close> leaves the file system as it was, for
  every tree and every configuration: no content is written and nothing is renamed. It
  hands no record to the logger either.
\<close>

theorem dry_run_no_mutation:
  "fs (snd (process_directory E P source_dir True st)) = fs st
   \<and> log (snd (process_directory E P source_dir True st)) = log st"
proof -
  obtain s f st1 where r: "process_files E P True (files_in_order E P source_dir (fs st)) (0, 0, st) = (s, f, st1)"
    by (metis prod_cases3)
  from process_files_dry[OF r] r show ?thesis
    by (simp add: process_directory_def Let_def)
qed

lemma convert_file_content_log:
  assumes "convert_file_content E p st = (r, st1)"
  shows "log st1 = log st \<or> log st1 = log st @ [ConvertedContent p]"
proof (cases "read_file_with_encoding E (fs st) p")
  case (Inl e)
  with assms show ?thesis by (auto simp: convert_file_content_def)
next
  case (Inr ce)
  obtain c enc where ce: "ce = (c, enc)" by (cases ce)
  obtain w fs1 where w: "write_file_with_encoding E p (convert E c) ''utf-8'' (fs st) = (w, fs1)"
    by (cases "write_file_with_encoding E p (convert E c) ''utf-8'' (fs st)")
  show ?thesis
  proof (cases w)
    case None
    with assms Inr ce w show ?thesis by (auto simp: convert_file_content_def Let_def)
  next
    case (Some e)
    with assms Inr ce w show ?thesis by (auto simp: convert_file_content_def Let_def)
  qed
qed

lemma process_file_log:
  assumes "process_file E P p dry st = (r, st1)"
  shows "\<exists>xs. log st1 = log st @ xs \<and> failures xs = []"
proof (cases dry)
  case True
  with assms process_file_dry[of E P p st] show ?thesis by auto
next
  case False
  obtain r0 st0 where c: "(if convert_content P then convert_file_content E p st else (None, st)) = (r0, st0)"
    by (cases "(if convert_content P then convert_file_content E p st else (None, st))")
  have l0: "\<exists>xs. log st0 = log st @ xs \<and> failures xs = []"
  proof (cases "convert_content P")
    case True
    with c have "convert_file_content E p st = (r0, st0)" by simp
    from convert_file_content_log[OF this] show ?thesis by auto
  next
    case False
    with c show ?thesis by auto
  qed
  then obtain xs where xs: "log st0 = log st @ xs" "failures xs = []" by blast
  have "log st1 = log st0 \<or> (\<exists>a b. log st1 = log st0 @ [Renamed a b])"
  proof (cases r0)
    case (Some e)
    with assms False c show ?thesis by (auto simp: process_file_def Let_def)
  next
    case None
    show ?thesis
    proof (cases "rename_files P \<and> new_path_of E P p \<noteq> p")
      case False
      with None assms \<open>\<not> dry\<close> c show ?thesis by (auto simp: process_file_def Let_def)
    next
      case True
      show ?thesis
      proof (cases "rename_file p (new_path_of E P p) (fs st0)")
        case (Inl e)
        with True None assms \<open>\<not> dry\<close> c show ?thesis by (auto simp: process_file_def Let_def)
      next
        case (Inr fs2)
        with True None assms \<open>\<not> dry\<close> c show ?thesis by (auto simp: process_file_def Let_def)
      qed
    qed
  qed
  then show ?thesis
  proof
    assume "log st1 = log st0"
    with xs show ?thesis by auto
  next
    assume "\<exists>a b. log st1 = log st0 @ [Renamed a b]"
    then obtain a b where "log st1 = log st @ (xs @ [Renamed a b])" using xs by auto
    moreover have "failures (xs @ [Renamed a b]) = []" using xs by (simp add: failures_append)
    ultimately show ?thesis by blast
  qed
qed

subsection \<open>The preview of a dry run\<close>

lemma count_differing:
  "length (filter (\<lambda>(a, b). a \<noteq> b) (zip xs ys))
     = card {i. i < min (length xs) (length ys) \<and> xs ! i \<noteq> ys ! i}"
proof -
  have "{i. i < length (zip xs ys) \<and> (\<lambda>(a, b). a \<noteq> b) (zip xs ys ! i)}
      = {i. i < min (length xs) (length ys) \<and> xs ! i \<noteq> ys ! i}"
    by auto
  then show ?thesis by (simp only: length_filter_conv_card)
qed

lemma changed_lines_card:
  "changed_lines content converted =
     card {i. i < min (length (split_on newline content)) (length (split_on newline converted))
              \<and> split_on newline content ! i \<noteq> split_on newline converted ! i}"
  by (simp only: changed_lines_def Let_def count_differing)

lemma content_message_1: "content_message (Suc 0) = ascii ''Content: 1 lines would change''"
  by (simp add: content_message_def str_nat.simps ascii_simps)

lemma changed_lines_middle:
  "split_on newline content = [a, b, c] \<Longrightarrow> split_on newline converted = [a, b', c] \<Longrightarrow> b \<noteq> b'
     \<Longrightarrow> changed_lines content converted = 1"
  by (simp add: changed_lines_def)

text \<open>
  Claim C9. In a dry run with content conversion, for a file that is read as \<open>content\<close>:
  when the converted content differs, the preview holds the line
  \<open>Content: n lines would change\<close> where \<open>n\<close> is the number of indices, below the length of
  the shorter of the two lists of lines, at which the original and the converted line
  differ; when both have three lines and only the second differs, the line is
  \<open>Content: 1 lines would change\<close>; and when nothing changes (content and name), nothing
  is printed.
\<close>

theorem dry_run_changed_lines:
  assumes cv: "convert_content P"
    and rd: "read_file_with_encoding E (fs st) source = Inr (content, enc)"
  shows "(convert E content \<noteq> content \<longrightarrow>
            content_changes E P source (fs st) =
              [Line (content_message
                 (card {i. i < min (length (split_on newline content))
                                   (length (split_on newline (convert E content)))
                           \<and> split_on newline content ! i \<noteq> split_on newline (convert E content) ! i}))]
            \<and> stdout (log_dry_run E P source target st) =
                stdout st @ [PathLine source]
                  @ map ChangeLine (content_changes E P source (fs st) @ rename_change P source target))
       \<and> (\<forall>a b b' c. split_on newline content = [a, b, c]
              \<and> split_on newline (convert E content) = [a, b', c] \<and> b \<noteq> b' \<longrightarrow>
            content_changes E P source (fs st) = [Line (ascii ''Content: 1 lines would change'')])
       \<and> (convert E content = content \<and> rename_change P source target = [] \<longrightarrow>
            log_dry_run E P source target st = st)"
proof (intro conjI impI allI)
  assume ne: "convert E content \<noteq> content"
  with cv rd show cc: "content_changes E P source (fs st) =
              [Line (content_message
                 (card {i. i < min (length (split_on newline content))
                                   (length (split_on newline (convert E content)))
                           \<and> split_on newline content ! i \<noteq> split_on newline (convert E content) ! i}))]"
    by (simp add: content_changes_def Let_def changed_lines_card)
  then show "stdout (log_dry_run E P source target st) =
                stdout st @ [PathLine source]
                  @ map ChangeLine (content_changes E P source (fs st) @ rename_change P source target)"
    by (simp add: log_dry_run_def rename_change_def Let_def)
next
  fix a b b' c
  assume h: "split_on newline content = [a, b, c]
              \<and> split_on newline (convert E content) = [a, b', c] \<and> b \<noteq> b'"
  then have "convert E content \<noteq> content" by auto
  moreover from h have "changed_lines content (convert E content) = 1"
    by (simp add: changed_lines_middle)
  ultimately show "content_changes E P source (fs st) = [Line (ascii ''Content: 1 lines would change'')]"
    using cv rd by (simp add: content_changes_def Let_def content_message_1)
next
  assume "convert E content = content \<and> rename_change P source target = []"
  with cv rd show "log_dry_run E P source target st = st"
    by (simp add: log_dry_run_def content_changes_def rename_change_def Let_def split: if_splits)
qed

lemma sample_convert:
  "convert sample_env [97, 98, 99, 10, 27979, 35797, 10, 120, 121, 122]
     = [97, 98, 99, 10, 28204, 35430, 10, 120, 121, 122]"
  by (simp add: convert_def sample_env_def sample_cc_def)

theorem dry_run_changed_lines_witness:
  "content_changes sample_env sample_processor sample_file (fs sample_state)
     = [Line (ascii ''Content: 1 lines would change'')]"
proof -
  have cv: "convert_content sample_processor" by (simp add: sample_processor_def FileProcessor_def)
  have rd: "read_file_with_encoding sample_env (fs sample_state) sample_file
     = Inr ([97, 98, 99, 10, 27979, 35797, 10, 120, 121, 122], ''utf_8'')"
    by (simp add: sample_state_def sample_read)
  have sp: "split_on newline [97, 98, 99, 10, 27979, 35797, 10, 120, 121, 122] = [[97, 98, 99], [27979, 35797], [120, 121, 122]]
     \<and> split_on newline (convert sample_env [97, 98, 99, 10, 27979, 35797, 10, 120, 121, 122]) = [[97, 98, 99], [28204, 35430], [120, 121, 122]]
     \<and> [27979, 35797] \<noteq> [28204, 35430::nat]"
    by (simp add: sample_convert newline_def)
  from dry_run_changed_lines[OF cv rd, of sample_file] sp show ?thesis by blast
qed

subsection \<open>Renaming directories\<close>

lemma nodes_reprefix: "map snd (map (\<lambda>(q, n). (f q, n)) xs) = map snd xs"
  by (induction xs) auto

lemma rename_directory_nodes:
  "rename_directory E dir_path st = (r, st1) \<Longrightarrow> map snd (fs st1) = map snd (fs st)"
  by (auto simp: rename_directory_def rename_dir_def Let_def nodes_reprefix split: if_splits)

text \<open>
  Claim C6. One step of the pass over the directories: when the converted name is the
  name, or an entry exists at the target path, nothing happens (the state, and with it
  the directory and the entry at the target, stay as they are, and nothing is raised);
  the file system changes only when the name differs and the target is free; and in that
  case the directory, with all that is below it, moves to the target. In every case the
  nodes of the tree are the same before and after: no entry is lost or replaced.
\<close>

theorem directory_rename_guarded:
  assumes "rename_directory E dir_path st = (r, st1)"
  shows "(convert E (name_of dir_path) = name_of dir_path
            \<or> exists (fs st) (joinpath (parent dir_path) (convert E (name_of dir_path)))
          \<longrightarrow> r = None \<and> st1 = st)
       \<and> (fs st1 \<noteq> fs st \<longrightarrow>
            convert E (name_of dir_path) \<noteq> name_of dir_path
            \<and> \<not> exists (fs st) (joinpath (parent dir_path) (convert E (name_of dir_path))))
       \<and> (convert E (name_of dir_path) \<noteq> name_of dir_path
            \<and> \<not> exists (fs st) (joinpath (parent dir_path) (convert E (name_of dir_path)))
            \<and> exists (fs st) dir_path
          \<longrightarrow> r = None
            \<and> fs st1 = map (\<lambda>(q, n). (reprefix dir_path
                   (joinpath (parent dir_path) (convert E (name_of dir_path))) q, n)) (fs st)
            \<and> log st1 = log st @ [RenamedDirectory (name_of dir_path) (convert E (name_of dir_path))])
       \<and> map snd (fs st1) = map snd (fs st)"
proof -
  have a: "(convert E (name_of dir_path) = name_of dir_path
            \<or> exists (fs st) (joinpath (parent dir_path) (convert E (name_of dir_path)))
          \<longrightarrow> r = None \<and> st1 = st)
       \<and> (fs st1 \<noteq> fs st \<longrightarrow>
            convert E (name_of dir_path) \<noteq> name_of dir_path
            \<and> \<not> exists (fs st) (joinpath (parent dir_path) (convert E (name_of dir_path))))
       \<and> (convert E (name_of dir_path) \<noteq> name_of dir_path
            \<and> \<not> exists (fs st) (joinpath (parent dir_path) (convert E (name_of dir_path)))
            \<and> exists (fs st) dir_path
          \<longrightarrow> r = None
            \<and> fs st1 = map (\<lambda>(q, n). (reprefix dir_path
                   (joinpath (parent dir_path) (convert E (name_of dir_path))) q, n)) (fs st)
            \<and> log st1 = log st @ [RenamedDirectory (name_of dir_path) (convert E (name_of dir_path))])"
    using assms
    by (auto simp: rename_directory_def rename_dir_def Let_def split: if_splits)
  from rename_directory_nodes[OF assms] a show ?thesis by blast
qed

theorem directory_rename_guarded_witness:
  "rename_directory sample_env sample_dir \<lparr>fs = collision_fs, log = [], stdout = [], visited = []\<rparr>
     = (None, \<lparr>fs = collision_fs, log = [], stdout = [], visited = []\<rparr>)"
proof -
  let ?st = "\<lparr>fs = collision_fs, log = [], stdout = [], visited = []\<rparr>"
  have "exists (fs ?st) (joinpath (parent sample_dir) (convert sample_env (name_of sample_dir)))"
    by (simp add: sample_dir_def name_of_snoc parent_snoc joinpath_single slash_def dot_def
          convert_def sample_env_def sample_cc_def)
       (simp add: exists_def lookup_def collision_fs_def sample_fs_def sample_paths)
  with directory_rename_guarded[OF prod.collapse[symmetric], of sample_env sample_dir ?st]
  have "fst (rename_directory sample_env sample_dir ?st) = None
      \<and> snd (rename_directory sample_env sample_dir ?st) = ?st" by blast
  then show ?thesis by (metis prod.collapse)
qed

subsection \<open>Deepest first\<close>

lemma deepest_first_nth:
  assumes "i \<le> j" "j < length xs"
  shows "length (sort_deepest_first xs ! j) \<le> length (sort_deepest_first xs ! i)"
proof -
  let ?ys = "sort_deepest_first xs"
  have s: "sorted (map (\<lambda>p. - int (length p)) ?ys)"
    unfolding sort_deepest_first_def by (rule sorted_sort_key)
  have l: "length ?ys = length xs" by (simp add: sort_deepest_first_def)
  from assms l have "map (\<lambda>p. - int (length p)) ?ys ! i \<le> map (\<lambda>p. - int (length p)) ?ys ! j"
    using s by (intro sorted_nth_mono) simp_all
  with assms l show ?thesis by simp
qed

lemma length_sort_deepest_first: "length (sort_deepest_first xs) = length xs"
  by (simp add: sort_deepest_first_def)

lemma set_sort_deepest_first: "set (sort_deepest_first xs) = set xs"
  by (simp add: sort_deepest_first_def)

subsection \<open>Scanning\<close>

lemma set_rglob: "set (rglob d fs0) = {p \<in> fst ` set fs0. strict_prefix d p}"
  by (auto simp: rglob_def)

lemma is_file_key: "is_file fs0 p \<Longrightarrow> p \<in> fst ` set fs0"
  by (auto simp: is_file_def lookup_def split: option.splits dest: map_of_SomeD intro: rev_image_eqI)

lemma set_scan_directory:
  "set (scan_directory E P d fs0) =
     {p. strict_prefix d p \<and> is_file fs0 p \<and> lower E (suffix_of (name_of p)) \<in> extensions P}"
  by (auto simp: scan_directory_def set_rglob is_file_key)

lemma lookup_perm:
  assumes "distinct (map fst fs0)" "mset fs' = mset fs0"
  shows "lookup fs' = lookup fs0"
proof -
  from assms(2) have "mset (map fst fs') = mset (map fst fs0)" by (metis mset_map)
  with assms(1) have "distinct (map fst fs')" by (metis mset_eq_imp_distinct_iff)
  moreover from assms(2) have "set fs' = set fs0" by (rule mset_eq_setD)
  ultimately have "map_of fs' = map_of fs0" using assms(1) by (simp add: map_of_inject_set)
  then show ?thesis by (auto simp: lookup_def fun_eq_iff)
qed

lemma scan_directory_perm:
  assumes "distinct (map fst fs0)" "mset fs' = mset fs0"
  shows "scan_directory E P d fs' = scan_directory E P d fs0"
proof -
  let ?ok = "\<lambda>fs0 p. is_file fs0 p \<and> lower E (suffix_of (name_of p)) \<in> extensions P"
  have l: "lookup fs' = lookup fs0" using assms by (rule lookup_perm)
  then have ok: "?ok fs' = ?ok fs0" by (simp add: is_file_def fun_eq_iff)
  have "mset (map fst fs') = mset (map fst fs0)" using assms(2) by (metis mset_map)
  then have "mset (rglob d fs') = mset (rglob d fs0)"
    unfolding rglob_def by (metis mset_filter)
  then have "mset (filter (?ok fs') (rglob d fs')) = mset (filter (?ok fs0) (rglob d fs0))"
    unfolding ok by (metis mset_filter)
  then show ?thesis
    unfolding scan_directory_def
    by (intro properties_for_sort) simp_all
qed

lemma extensions_FileProcessor:
  "x \<in> extensions (FileProcessor E exts rn cv) \<longleftrightarrow> (\<exists>e \<in> set (extensions_or_default exts). x = lower E e)"
  by (auto simp: FileProcessor_def)

lemma distinct_rglob: "distinct (map fst fs0) \<Longrightarrow> distinct (rglob d fs0)"
  by (simp add: rglob_def)

text \<open>
  Claim C7, as amended. For a processor built by \<open>FileProcessor\<close> from a list of extensions, a path
  is returned by \<open>scan_directory\<close> exactly when it lies strictly below the root, is a
  regular file, and its suffix, lowercased, is the lowercased form of a configured
  extension. The result is sorted in the order of paths, which is lexicographic in the
  list of components, each compared as a string (and is not the order of the full path
  strings); it holds each file once, and is the same for every order in which the file
  system lists the same entries.
\<close>

theorem scan_directory_spec:
  "(\<forall>p. p \<in> set (scan_directory E (FileProcessor E exts rn cv) d fs0) \<longleftrightarrow>
        strict_prefix d p \<and> is_file fs0 p
        \<and> (\<exists>e \<in> set (extensions_or_default exts). lower E (suffix_of (name_of p)) = lower E e))
   \<and> sorted (scan_directory E (FileProcessor E exts rn cv) d fs0)
   \<and> (distinct (map fst fs0) \<longrightarrow> distinct (scan_directory E (FileProcessor E exts rn cv) d fs0))
   \<and> (\<forall>fs'. distinct (map fst fs0) \<and> mset fs' = mset fs0 \<longrightarrow>
         scan_directory E (FileProcessor E exts rn cv) d fs' = scan_directory E (FileProcessor E exts rn cv) d fs0)"
proof (intro conjI allI impI)
  fix p
  show "p \<in> set (scan_directory E (FileProcessor E exts rn cv) d fs0) \<longleftrightarrow>
        strict_prefix d p \<and> is_file fs0 p
        \<and> (\<exists>e \<in> set (extensions_or_default exts). lower E (suffix_of (name_of p)) = lower E e)"
    by (simp add: set_scan_directory extensions_FileProcessor)
next
  show "sorted (scan_directory E (FileProcessor E exts rn cv) d fs0)"
    by (simp add: scan_directory_def)
next
  assume "distinct (map fst fs0)"
  then show "distinct (scan_directory E (FileProcessor E exts rn cv) d fs0)"
    by (simp add: scan_directory_def distinct_rglob)
next
  fix fs' assume "distinct (map fst fs0) \<and> mset fs' = mset fs0"
  then show "scan_directory E (FileProcessor E exts rn cv) d fs' = scan_directory E (FileProcessor E exts rn cv) d fs0"
    by (simp add: scan_directory_perm)
qed

lemma sample_fs_distinct: "distinct (map fst sample_fs)"
  by (simp add: sample_fs_def sample_paths)

theorem scan_directory_spec_witness:
  "scan_directory sample_env sample_processor root (rev sample_fs) = [locked_file, sample_file]"
proof -
  have "distinct (map fst sample_fs) \<and> mset (rev sample_fs) = mset sample_fs"
    by (simp add: sample_fs_distinct)
  with scan_directory_spec[of sample_env None True True root sample_fs]
  have "scan_directory sample_env (FileProcessor sample_env None True True) root (rev sample_fs)
      = scan_directory sample_env (FileProcessor sample_env None True True) root sample_fs"
    by blast
  then show ?thesis using sample_scan by (simp add: sample_processor_def)
qed

text \<open>
  Claim C7 as stated fails: the result is not sorted by the full path string. The scan
  of the tree with \<open>root/a/b.txt\<close> and \<open>root/a-b.txt\<close> returns them in this order, as
  the component \<open>a\<close> comes before the component \<open>a-b.txt\<close>; as strings the second path is
  the smaller, \<open>-\<close> being below the separator.
\<close>

theorem scan_directory_string_order_counterexample:
  "scan_directory sample_env sample_processor root dash_fs = [dash_inner, dash_outer]
   \<and> path_str dash_inner = ascii ''root/a/b.txt''
   \<and> path_str dash_outer = ascii ''root/a-b.txt''
   \<and> path_str dash_outer < path_str dash_inner
   \<and> \<not> sorted (map path_str (scan_directory sample_env sample_processor root dash_fs))"
proof -
  have a: "scan_directory sample_env sample_processor root dash_fs = [dash_inner, dash_outer]"
    by (simp add: scan_directory_def rglob_def dash_fs_def dash_inner_def dash_outer_def root_def
          ascii_simps is_file_def lookup_def sample_processor_def FileProcessor_def
          extensions_or_default_def sample_env_def name_of_def suffix_of_def dot_def slash_def
          Let_def)
  have b: "path_str dash_inner = ascii ''root/a/b.txt''"
    "path_str dash_outer = ascii ''root/a-b.txt''"
    by (simp_all add: path_str_def dash_inner_def dash_outer_def root_def ascii_simps slash_def)
  have c: "path_str dash_outer < path_str dash_inner"
    unfolding b by (simp add: ascii_simps)
  then have "\<not> path_str dash_inner \<le> path_str dash_outer" by simp
  then have "\<not> sorted (map path_str [dash_inner, dash_outer])" by simp
  with a b c show ?thesis by simp
qed

subsection \<open>Reading the file system after a write and after a rename\<close>

lemma lookup_Nil: "lookup [] q = None"
  by (simp add: lookup_def)

lemma lookup_Cons: "lookup ((k, n) # fs0) q = (if q = k then Some n else lookup fs0 q)"
  by (simp add: lookup_def)

lemma set_content_Nil: "set_content p b [] = []"
  by (simp add: set_content_def)

lemma set_content_Cons:
  "set_content p b ((q, n) # fs0) =
     (if q = p then (q, (case n of File r w _ \<Rightarrow> File r w b | Dir \<Rightarrow> Dir)) else (q, n))
       # set_content p b fs0"
  by (simp add: set_content_def)

lemma lookup_set_content_other: "q \<noteq> p \<Longrightarrow> lookup (set_content p b fs0) q = lookup fs0 q"
proof (induction fs0)
  case Nil
  show ?case by (simp add: lookup_Nil set_content_Nil)
next
  case (Cons a fs0)
  obtain k n where a: "a = (k, n)" by (cases a)
  from Cons show ?case unfolding a by (simp add: lookup_Cons set_content_Cons)
qed

lemma lookup_set_content_same:
  "lookup (set_content p b fs0) p =
     map_option (\<lambda>n. case n of File r w _ \<Rightarrow> File r w b | Dir \<Rightarrow> Dir) (lookup fs0 p)"
proof (induction fs0)
  case Nil
  show ?case by (simp add: lookup_Nil set_content_Nil)
next
  case (Cons a fs0)
  obtain k n where a: "a = (k, n)" by (cases a)
  from Cons show ?case unfolding a by (simp add: lookup_Cons set_content_Cons)
qed

lemma keys_set_content: "map fst (set_content p b fs0) = map fst fs0"
proof (induction fs0)
  case Nil
  show ?case by (simp add: set_content_Nil)
next
  case (Cons a fs0)
  obtain k n where a: "a = (k, n)" by (cases a)
  show ?case unfolding a using Cons.IH by (simp add: set_content_Cons)
qed

lemma moved_Nil: "moved src dst [] = []"
  by (simp add: moved_def)

lemma moved_Cons:
  "moved src dst ((q, n) # fs0) =
     (if q = dst then moved src dst fs0
      else (if q = src then (dst, n) else (q, n)) # moved src dst fs0)"
  by (simp add: moved_def)

lemma lookup_moved_dst: "src \<noteq> dst \<Longrightarrow> lookup (moved src dst fs0) dst = lookup fs0 src"
proof (induction fs0)
  case Nil
  show ?case by (simp add: lookup_Nil moved_Nil)
next
  case (Cons a fs0)
  obtain k n where a: "a = (k, n)" by (cases a)
  from Cons show ?case unfolding a by (simp add: lookup_Cons moved_Cons)
qed

lemma lookup_moved_src: "src \<noteq> dst \<Longrightarrow> lookup (moved src dst fs0) src = None"
proof (induction fs0)
  case Nil
  show ?case by (simp add: lookup_Nil moved_Nil)
next
  case (Cons a fs0)
  obtain k n where a: "a = (k, n)" by (cases a)
  from Cons show ?case unfolding a by (simp add: lookup_Cons moved_Cons)
qed

lemma lookup_moved_other: "q \<noteq> src \<Longrightarrow> q \<noteq> dst \<Longrightarrow> lookup (moved src dst fs0) q = lookup fs0 q"
proof (induction fs0)
  case Nil
  show ?case by (simp add: lookup_Nil moved_Nil)
next
  case (Cons a fs0)
  obtain k n where a: "a = (k, n)" by (cases a)
  from Cons show ?case unfolding a by (simp add: lookup_Cons moved_Cons)
qed

lemma rename_file_Inr:
  "rename_file src dst fs0 = Inr fs2 \<Longrightarrow> fs2 = moved src dst fs0"
  by (simp add: rename_file_def split: if_splits)

lemma rename_file_ok:
  "exists fs0 src \<Longrightarrow> \<not> is_dir fs0 dst \<Longrightarrow> rename_file src dst fs0 = Inr (moved src dst fs0)"
  by (simp add: rename_file_def)

subsection \<open>One file in apply mode\<close>

lemma read_is_file:
  assumes "read_file_with_encoding E fs0 p = Inr x"
  shows "\<exists>w b. lookup fs0 p = Some (File True w b)"
proof (cases "lookup fs0 p")
  case None
  with assms show ?thesis by (simp add: read_file_with_encoding_def read_bytes_def)
next
  case (Some n)
  show ?thesis
  proof (cases n)
    case Dir
    with Some assms show ?thesis by (simp add: read_file_with_encoding_def read_bytes_def)
  next
    case (File r w b)
    with Some assms show ?thesis
      by (cases r) (simp_all add: read_file_with_encoding_def read_bytes_def)
  qed
qed

lemma write_result:
  assumes "write_file_with_encoding E p s enc fs0 = (None, fs1)"
    and "lookup fs0 p = Some (File r w b)"
  shows "w \<and> (\<exists>out. encode E enc s = Inr out \<and> fs1 = set_content p out fs0)"
proof (cases w)
  case False
  with assms show ?thesis by (simp add: write_file_with_encoding_def)
next
  case True
  with assms show ?thesis
    by (cases "encode E enc s") (simp_all add: write_file_with_encoding_def)
qed

lemma convert_file_content_ok:
  assumes "convert_file_content E p st = (None, st0)"
  shows "\<exists>content enc out r b. read_file_with_encoding E (fs st) p = Inr (content, enc)
           \<and> encode E ''utf-8'' (convert E content) = Inr out
           \<and> lookup (fs st) p = Some (File r True b)
           \<and> st0 = st\<lparr>fs := set_content p out (fs st), log := log st @ [ConvertedContent p]\<rparr>"
proof (cases "read_file_with_encoding E (fs st) p")
  case (Inl e)
  with assms show ?thesis by (simp add: convert_file_content_def)
next
  case (Inr ce)
  obtain c enc where ce: "ce = (c, enc)" by (cases ce)
  obtain w fs1 where w: "write_file_with_encoding E p (convert E c) ''utf-8'' (fs st) = (w, fs1)"
    by (cases "write_file_with_encoding E p (convert E c) ''utf-8'' (fs st)")
  show ?thesis
  proof (cases w)
    case None
    from read_is_file[OF Inr] obtain w0 b where lk: "lookup (fs st) p = Some (File True w0 b)"
      by blast
    from write_result[OF w[unfolded None] lk] obtain out where
      o: "lookup (fs st) p = Some (File True True b)" "encode E ''utf-8'' (convert E c) = Inr out"
         "fs1 = set_content p out (fs st)" using lk by auto
    from assms Inr ce w None have "st0 = st\<lparr>fs := fs1, log := log st @ [ConvertedContent p]\<rparr>"
      by (simp add: convert_file_content_def Let_def)
    with o Inr ce show ?thesis by auto
  next
    case (Some e)
    with assms Inr ce w show ?thesis by (simp add: convert_file_content_def Let_def)
  qed
qed

lemma write_keys:
  assumes "write_file_with_encoding E p s enc fs0 = (r, fs1)"
    and "lookup fs0 p = Some (File r0 w b)"
  shows "map fst fs1 = map fst fs0"
proof (cases w)
  case False
  with assms show ?thesis by (auto simp: write_file_with_encoding_def)
next
  case True
  with assms show ?thesis
    by (cases "encode E enc s") (auto simp: write_file_with_encoding_def keys_set_content)
qed

lemma convert_file_content_keys:
  assumes "convert_file_content E p st = (r, st0)"
  shows "map fst (fs st0) = map fst (fs st)"
proof (cases "read_file_with_encoding E (fs st) p")
  case (Inl e)
  with assms show ?thesis by (auto simp: convert_file_content_def)
next
  case (Inr ce)
  obtain c enc where ce: "ce = (c, enc)" by (cases ce)
  obtain w fs1 where w: "write_file_with_encoding E p (convert E c) ''utf-8'' (fs st) = (w, fs1)"
    by (cases "write_file_with_encoding E p (convert E c) ''utf-8'' (fs st)")
  from read_is_file[OF Inr] obtain w0 b where "lookup (fs st) p = Some (File True w0 b)"
    by blast
  from write_keys[OF w this] have k: "map fst fs1 = map fst (fs st)" .
  show ?thesis
  proof (cases w)
    case None
    with assms Inr ce w k show ?thesis by (auto simp: convert_file_content_def Let_def)
  next
    case (Some e)
    with assms Inr ce w k show ?thesis by (auto simp: convert_file_content_def Let_def)
  qed
qed

lemma process_file_apply_success:
  assumes "process_file E P p False st = (Inr np, st1)"
  shows "\<exists>st0. (if convert_content P then convert_file_content E p st else (None, st)) = (None, st0)
           \<and> np = new_path_of E P p
           \<and> (if rename_files P \<and> np \<noteq> p
               then rename_file p np (fs st0) = Inr (fs st1)
                    \<and> log st1 = log st0 @ [Renamed (name_of p) (name_of np)]
               else st1 = st0)"
proof -
  obtain r0 st0 where c: "(if convert_content P then convert_file_content E p st else (None, st)) = (r0, st0)"
    by (cases "(if convert_content P then convert_file_content E p st else (None, st))")
  show ?thesis
  proof (cases r0)
    case (Some e)
    with assms c show ?thesis by (auto simp: process_file_def Let_def)
  next
    case None
    show ?thesis
    proof (cases "rename_files P \<and> new_path_of E P p \<noteq> p")
      case False
      with None assms c show ?thesis by (auto simp: process_file_def Let_def)
    next
      case True
      show ?thesis
      proof (cases "rename_file p (new_path_of E P p) (fs st0)")
        case (Inl e)
        with True None assms c show ?thesis by (auto simp: process_file_def Let_def)
      next
        case (Inr fs2)
        with True None assms c show ?thesis by (auto simp: process_file_def Let_def)
      qed
    qed
  qed
qed

lemma new_path_of_same: "\<not> (rename_files P \<and> new_path_of E P p \<noteq> p) \<Longrightarrow> new_path_of E P p = p"
  by (auto simp: new_path_of_def)

text \<open>
  Claim C5. In apply mode with content conversion, whenever \<open>process_file\<close> succeeds the
  file was read as some \<open>content\<close>, and the file at the final path holds the UTF-8
  encoding of the converted content; the write is logged. Nothing is asked of the
  original encoding, nor that the conversion changes the content.
\<close>

theorem content_rewritten_as_utf8:
  assumes cv: "convert_content P"
    and ok: "process_file E P file_path False st = (Inr np, st1)"
  shows "\<exists>content enc out r.
           read_file_with_encoding E (fs st) file_path = Inr (content, enc)
         \<and> encode E ''utf-8'' (convert E content) = Inr out
         \<and> lookup (fs st1) np = Some (File r True out)
         \<and> ConvertedContent file_path \<in> set (log st1)"
proof -
  from process_file_apply_success[OF ok] cv obtain st0 where
    c: "convert_file_content E file_path st = (None, st0)"
    and np: "np = new_path_of E P file_path"
    and rn: "if rename_files P \<and> np \<noteq> file_path
               then rename_file file_path np (fs st0) = Inr (fs st1)
                    \<and> log st1 = log st0 @ [Renamed (name_of file_path) (name_of np)]
               else st1 = st0"
    by auto
  from convert_file_content_ok[OF c] obtain content enc out r b where
    rd: "read_file_with_encoding E (fs st) file_path = Inr (content, enc)"
    and en: "encode E ''utf-8'' (convert E content) = Inr out"
    and lk: "lookup (fs st) file_path = Some (File r True b)"
    and st0: "st0 = st\<lparr>fs := set_content file_path out (fs st), log := log st @ [ConvertedContent file_path]\<rparr>"
    by blast
  have l0: "lookup (fs st0) file_path = Some (File r True out)"
    by (simp add: st0 lookup_set_content_same lk)
  have g0: "ConvertedContent file_path \<in> set (log st0)" by (simp add: st0)
  have "lookup (fs st1) np = Some (File r True out) \<and> ConvertedContent file_path \<in> set (log st1)"
  proof (cases "rename_files P \<and> np \<noteq> file_path")
    case True
    with rn have r1: "rename_file file_path np (fs st0) = Inr (fs st1)"
      and r2: "log st1 = log st0 @ [Renamed (name_of file_path) (name_of np)]" by auto
    from True have ne: "file_path \<noteq> np" by auto
    from rename_file_Inr[OF r1] have "fs st1 = moved file_path np (fs st0)" .
    then have "lookup (fs st1) np = lookup (fs st0) file_path"
      by (simp add: lookup_moved_dst[OF ne])
    with l0 g0 r2 show ?thesis by simp
  next
    case False
    with rn have "st1 = st0" by simp
    moreover from False np have "np = file_path" by (simp add: new_path_of_same)
    ultimately show ?thesis using l0 g0 by simp
  qed
  with rd en show ?thesis by blast
qed

lemma length_moved:
  "dst \<in> fst ` set fs0 \<Longrightarrow> length (moved src dst fs0) < length fs0"
proof -
  assume "dst \<in> fst ` set fs0"
  then obtain n where "(dst, n) \<in> set fs0" by auto
  then have "length (filter (\<lambda>(q, n). q \<noteq> dst) fs0) < length fs0"
    by (intro length_filter_less[of "(dst, n)"]) auto
  then show ?thesis by (simp add: moved_def)
qed

text \<open>
  Claim C10. In apply mode with renaming, let the converted path of a regular file differ
  from its path and be the path of another regular file. Unless the content step raises,
  \<open>process_file\<close> succeeds: the target path now holds the renamed file, the old path is
  gone, every other path is as before, and nothing is recorded as a failure. The file
  that was at the target is replaced without a check: the tree has fewer entries than
  before.
\<close>

theorem file_rename_replaces_existing:
  assumes rn: "rename_files P"
    and ne: "new_path_of E P file_path \<noteq> file_path"
    and src: "is_file (fs st) file_path"
    and tgt: "is_file (fs st) (new_path_of E P file_path)"
    and content_ok: "convert_content P \<longrightarrow> fst (convert_file_content E file_path st) = None"
  shows "\<exists>st0 st1.
           (if convert_content P then convert_file_content E file_path st else (None, st)) = (None, st0)
         \<and> process_file E P file_path False st = (Inr (new_path_of E P file_path), st1)
         \<and> lookup (fs st1) (new_path_of E P file_path) = lookup (fs st0) file_path
         \<and> is_file (fs st1) (new_path_of E P file_path)
         \<and> lookup (fs st1) file_path = None
         \<and> (\<forall>q. q \<noteq> file_path \<and> q \<noteq> new_path_of E P file_path \<longrightarrow> lookup (fs st1) q = lookup (fs st) q)
         \<and> log st1 = log st0 @ [Renamed (name_of file_path) (name_of (new_path_of E P file_path))]
         \<and> failures (log st1) = failures (log st)
         \<and> length (fs st1) < length (fs st)"
proof -
  let ?np = "new_path_of E P file_path"
  have "\<exists>st0. (if convert_content P then convert_file_content E file_path st else (None, st)) = (None, st0)"
  proof (cases "convert_content P")
    case True
    with content_ok have "fst (convert_file_content E file_path st) = None" by simp
    then have "convert_file_content E file_path st = (None, snd (convert_file_content E file_path st))"
      by (metis prod.collapse)
    with True show ?thesis by auto
  next
    case False
    then show ?thesis by simp
  qed
  then obtain st0 where c: "(if convert_content P then convert_file_content E file_path st else (None, st)) = (None, st0)"
    by blast
  have keep: "lookup (fs st0) q = lookup (fs st) q" if "q \<noteq> file_path" for q
  proof (cases "convert_content P")
    case True
    with c have "convert_file_content E file_path st = (None, st0)" by simp
    from convert_file_content_ok[OF this] that show ?thesis
      by (auto simp: lookup_set_content_other)
  next
    case False
    with c show ?thesis by simp
  qed
  have src0: "is_file (fs st0) file_path"
  proof (cases "convert_content P")
    case True
    with c have "convert_file_content E file_path st = (None, st0)" by simp
    from convert_file_content_ok[OF this] show ?thesis
      by (auto simp: is_file_def lookup_set_content_same)
  next
    case False
    with c src show ?thesis by simp
  qed
  have log0: "failures (log st0) = failures (log st)"
  proof (cases "convert_content P")
    case True
    with c have "convert_file_content E file_path st = (None, st0)" by simp
    from convert_file_content_ok[OF this] show ?thesis
      by (auto simp: failures_append)
  next
    case False
    with c show ?thesis by simp
  qed
  from tgt keep[of ?np] ne have tgt0: "is_file (fs st0) ?np" by (simp add: is_file_def)
  from src0 have ex: "exists (fs st0) file_path"
    by (auto simp: is_file_def exists_def split: option.splits)
  from tgt0 have nd: "\<not> is_dir (fs st0) ?np"
    by (auto simp: is_file_def is_dir_def split: option.splits node.splits)
  have rf: "rename_file file_path ?np (fs st0) = Inr (moved file_path ?np (fs st0))"
    using ex nd by (rule rename_file_ok)
  let ?st1 = "st0\<lparr>fs := moved file_path ?np (fs st0),
                   log := log st0 @ [Renamed (name_of file_path) (name_of ?np)]\<rparr>"
  have pf: "process_file E P file_path False st = (Inr ?np, ?st1)"
    using c rn ne rf by (simp add: process_file_def Let_def)
  have fp: "file_path \<noteq> ?np" using ne by simp
  have a: "lookup (fs ?st1) ?np = lookup (fs st0) file_path"
    by (simp add: lookup_moved_dst[OF fp])
  have b: "is_file (fs ?st1) ?np" using a src0 by (simp add: is_file_def)
  have d: "lookup (fs ?st1) file_path = None" by (simp add: lookup_moved_src[OF fp])
  have e: "\<forall>q. q \<noteq> file_path \<and> q \<noteq> ?np \<longrightarrow> lookup (fs ?st1) q = lookup (fs st) q"
    by (simp add: lookup_moved_other keep)
  have f: "failures (log ?st1) = failures (log st)" by (simp add: failures_append log0)
  have "map fst (fs st0) = map fst (fs st)"
  proof (cases "convert_content P")
    case True
    with c have "convert_file_content E file_path st = (None, st0)" by simp
    then show ?thesis by (rule convert_file_content_keys)
  next
    case False
    with c show ?thesis by simp
  qed
  then have "length (fs st0) = length (fs st)" by (metis length_map)
  moreover from tgt0 have "?np \<in> fst ` set (fs st0)" by (rule is_file_key)
  then have "length (moved file_path ?np (fs st0)) < length (fs st0)" by (rule length_moved)
  ultimately have g: "length (fs ?st1) < length (fs st)" by simp
  show ?thesis
    using c pf a b d e f g by (intro exI[of _ st0] exI[of _ ?st1]) simp
qed

subsection \<open>The sample tree in apply mode\<close>

lemma sample_new_path:
  "new_path_of sample_env sample_processor sample_file = sample_target"
  by (simp add: new_path_of_def sample_file_def name_of_snoc parent_snoc slash_def dot_def
        ascii_simps sample_processor_def FileProcessor_def)
     (simp add: convert_filename_def str_name_single joinpath_single stem_of_def suffix_of_def
        convert_def slash_def dot_def Let_def sample_env_def sample_cc_def sample_target_def
        ascii_simps)

lemma sample_encoded:
  "encode sample_env ''utf-8'' [97, 98, 99, 10, 28204, 35430, 10, 120, 121, 122]
     = Inr converted_bytes"
  by (simp add: sample_env_def sample_encode_def converted_bytes_def)

lemma sample_lookup: "lookup sample_fs sample_file = Some (File True True sample_bytes)"
  by (simp add: lookup_def sample_fs_def sample_paths)

lemma sample_content_step:
  "convert_file_content sample_env sample_file sample_state =
     (None, sample_state\<lparr>fs := set_content sample_file
                 converted_bytes sample_fs,
              log := [ConvertedContent sample_file]\<rparr>)"
  by (simp add: convert_file_content_def sample_state_def sample_read sample_convert
        write_file_with_encoding_def sample_lookup sample_encoded)

lemma sample_rename_ok:
  "rename_file sample_file sample_target
       (set_content sample_file converted_bytes sample_fs)
     = Inr (moved sample_file sample_target
             (set_content sample_file converted_bytes sample_fs))"
proof (rule rename_file_ok)
  show "exists (set_content sample_file converted_bytes sample_fs) sample_file"
    by (simp add: exists_def lookup_set_content_same sample_lookup)
  have "sample_target \<noteq> sample_file" by (simp add: sample_file_def sample_target_def)
  then show "\<not> is_dir (set_content sample_file converted_bytes sample_fs) sample_target"
    by (simp add: is_dir_def lookup_set_content_other) (simp add: lookup_def sample_fs_def sample_paths sample_target_def)
qed

lemma sample_process_file:
  "process_file sample_env sample_processor sample_file False sample_state =
     (Inr sample_target,
      sample_after)"
proof -
  have cv: "convert_content sample_processor" "rename_files sample_processor"
    by (simp_all add: sample_processor_def FileProcessor_def)
  have ne: "sample_target \<noteq> sample_file" by (simp add: sample_file_def sample_target_def)
  have nm: "name_of sample_file = 27979 # ascii ''.TXT''" "name_of sample_target = 28204 # ascii ''.TXT''"
    by (simp_all add: name_of_snoc sample_file_def sample_target_def slash_def ascii_simps)
  show ?thesis
    by (simp add: process_file_def sample_new_path cv ne nm sample_content_step sample_rename_ok
          Let_def sample_after_def)
qed

theorem content_rewritten_as_utf8_witness:
  "\<exists>content enc out r.
           read_file_with_encoding sample_env (fs sample_state) sample_file = Inr (content, enc)
         \<and> encode sample_env ''utf-8'' (convert sample_env content) = Inr out
         \<and> lookup (fs sample_after)
              sample_target = Some (File r True out)
         \<and> ConvertedContent sample_file \<in> set (log sample_after)"
proof (rule content_rewritten_as_utf8)
  show "convert_content sample_processor" by (simp add: sample_processor_def FileProcessor_def)
  show "process_file sample_env sample_processor sample_file False sample_state =
     (Inr sample_target,
      sample_after)"
    by (rule sample_process_file)
qed

lemma twin_new_path: "new_path_of sample_env sample_processor twin_old = twin_new"
  by (simp add: new_path_of_def twin_old_def name_of_snoc parent_snoc slash_def dot_def
        ascii_simps sample_processor_def FileProcessor_def)
     (simp add: convert_filename_def str_name_single joinpath_single stem_of_def suffix_of_def
        convert_def slash_def dot_def Let_def sample_env_def sample_cc_def twin_new_def
        ascii_simps)

lemma twin_read: "read_file_with_encoding sample_env twins_fs twin_old = Inr ([97], ''utf_8'')"
  by (simp add: read_file_with_encoding_def read_bytes_def lookup_def twins_fs_def twin_old_def
        twin_new_def sample_paths decode_data_def sample_env_def sample_decode_def Let_def)

lemma twin_content_step: "fst (convert_file_content sample_env twin_old twins_state) = None"
proof -
  have c: "convert sample_env [97] = [97]" by (simp add: convert_def sample_env_def sample_cc_def)
  have e: "encode sample_env ''utf-8'' [97] = Inr [97]" by (simp add: sample_env_def sample_encode_def)
  have l: "lookup twins_fs twin_old = Some (File True True [97])"
    by (simp add: lookup_def twins_fs_def twin_old_def twin_new_def sample_paths)
  show ?thesis
    by (simp add: convert_file_content_def twins_state_def twin_read c e l write_file_with_encoding_def)
qed

theorem file_rename_replaces_existing_witness:
  "\<exists>st1. process_file sample_env sample_processor twin_old False twins_state = (Inr twin_new, st1)
        \<and> is_file (fs st1) twin_new \<and> lookup (fs st1) twin_old = None
        \<and> failures (log st1) = failures (log twins_state)"
proof -
  have rn: "rename_files sample_processor" by (simp add: sample_processor_def FileProcessor_def)
  have "twin_new \<noteq> twin_old" by (simp add: twin_old_def twin_new_def)
  then have ne: "new_path_of sample_env sample_processor twin_old \<noteq> twin_old"
    unfolding twin_new_path .
  have src: "is_file (fs twins_state) twin_old"
    by (simp add: is_file_def lookup_def twins_state_def twins_fs_def twin_old_def twin_new_def sample_paths)
  have "is_file (fs twins_state) twin_new"
    by (simp add: is_file_def lookup_def twins_state_def twins_fs_def twin_old_def
          twin_new_def sample_paths)
  then have tgt: "is_file (fs twins_state) (new_path_of sample_env sample_processor twin_old)"
    unfolding twin_new_path .
  have ok: "convert_content sample_processor \<longrightarrow>
              fst (convert_file_content sample_env twin_old twins_state) = None"
    by (simp add: twin_content_step)
  from file_rename_replaces_existing[OF rn ne src tgt ok] show ?thesis
    unfolding twin_new_path by blast
qed

subsection \<open>The loop over the files\<close>

lemma log_dry_run_visited:
  "log_dry_run E P a b (st\<lparr>visited := v\<rparr>) = (log_dry_run E P a b st)\<lparr>visited := v\<rparr>"
  by (simp add: log_dry_run_def Let_def)

lemma convert_file_content_visited:
  "convert_file_content E p (st\<lparr>visited := v\<rparr>) =
     (fst (convert_file_content E p st), (snd (convert_file_content E p st))\<lparr>visited := v\<rparr>)"
proof (cases "read_file_with_encoding E (fs st) p")
  case (Inl e)
  then show ?thesis by (simp add: convert_file_content_def)
next
  case (Inr ce)
  obtain c enc where ce: "ce = (c, enc)" by (cases ce)
  obtain w fs1 where w: "write_file_with_encoding E p (convert E c) ''utf-8'' (fs st) = (w, fs1)"
    by (cases "write_file_with_encoding E p (convert E c) ''utf-8'' (fs st)")
  show ?thesis using Inr ce w by (cases w) (simp_all add: convert_file_content_def Let_def)
qed

lemma process_file_visited:
  "process_file E P p dry (st\<lparr>visited := v\<rparr>) =
     (fst (process_file E P p dry st), (snd (process_file E P p dry st))\<lparr>visited := v\<rparr>)"
proof (cases dry)
  case True
  then show ?thesis by (simp add: process_file_def Let_def log_dry_run_visited)
next
  case False
  obtain r0 st0 where c: "(if convert_content P then convert_file_content E p st else (None, st)) = (r0, st0)"
    by (cases "(if convert_content P then convert_file_content E p st else (None, st))")
  have c': "(if convert_content P then convert_file_content E p (st\<lparr>visited := v\<rparr>)
             else (None, st\<lparr>visited := v\<rparr>)) = (r0, st0\<lparr>visited := v\<rparr>)"
    using c by (auto simp: convert_file_content_visited split: if_splits)
  show ?thesis
  proof (cases r0)
    case (Some e)
    with False c c' show ?thesis by (simp add: process_file_def Let_def)
  next
    case None
    show ?thesis
    proof (cases "rename_files P \<and> new_path_of E P p \<noteq> p")
      case no: False
      with None False c c' show ?thesis by (auto simp: process_file_def Let_def)
    next
      case yes: True
      show ?thesis
      proof (cases "rename_file p (new_path_of E P p) (fs st0)")
        case (Inl e)
        with yes None False c c' show ?thesis by (simp add: process_file_def Let_def)
      next
        case (Inr fs2)
        with yes None False c c' show ?thesis by (simp add: process_file_def Let_def)
      qed
    qed
  qed
qed

lemma process_file_keeps_visited:
  "visited (snd (process_file E P p dry st)) = visited st"
proof -
  let ?x = "snd (process_file E P p dry st)"
  have a: "process_file E P p dry (st\<lparr>visited := visited st\<rparr>) =
     (fst (process_file E P p dry st), ?x\<lparr>visited := visited st\<rparr>)"
    by (rule process_file_visited)
  have b: "st\<lparr>visited := visited st\<rparr> = st" by simp
  from a[unfolded b] have "?x = ?x\<lparr>visited := visited st\<rparr>" by (metis snd_conv)
  then have "visited ?x = visited (?x\<lparr>visited := visited st\<rparr>)" by (rule arg_cong)
  also have "\<dots> = visited st" by simp
  finally show ?thesis .
qed

lemma attempts_visited: "attempts E P dry files (st\<lparr>visited := v\<rparr>) = attempts E P dry files st"
proof (induction files arbitrary: st v)
  case Nil
  show ?case by simp
next
  case (Cons p ps)
  obtain r st1 where pf: "process_file E P p dry st = (r, st1)" by (cases "process_file E P p dry st")
  then have pf': "process_file E P p dry (st\<lparr>visited := v\<rparr>) = (r, st1\<lparr>visited := v\<rparr>)"
    by (simp add: process_file_visited)
  show ?case
  proof (cases r)
    case (Inr np)
    with pf pf' Cons.IH[where st = st1 and v = v] show ?thesis by simp
  next
    case (Inl e)
    define st2 where "st2 = st1\<lparr>log := log st1 @ [Failed p e]\<rparr>"
    have eq: "(st1\<lparr>visited := v\<rparr>)\<lparr>log := log (st1\<lparr>visited := v\<rparr>) @ [Failed p e]\<rparr>
            = st2\<lparr>visited := v\<rparr>" by (simp add: st2_def)
    have "attempts E P dry (p # ps) (st\<lparr>visited := v\<rparr>)
            = (p, Inl e) # attempts E P dry ps (st2\<lparr>visited := v\<rparr>)"
      by (simp only: attempts.simps pf' Inl prod.case sum.case eq)
    also have "\<dots> = (p, Inl e) # attempts E P dry ps st2"
      by (simp only: Cons.IH)
    also have "\<dots> = attempts E P dry (p # ps) st"
      by (simp only: attempts.simps pf Inl prod.case sum.case st2_def)
    finally show ?thesis .
  qed
qed


lemma length_raised: "length (raised xs) \<le> length xs"
  by (induction xs rule: raised.induct) simp_all

lemma process_files_attempts:
  "process_files E P dry files (s, f, st) = (s', f', st') \<Longrightarrow>
     f' = f + length (raised (attempts E P dry files st))
   \<and> s' + f' = s + f + length files
   \<and> (\<exists>news. log st' = log st @ news \<and> failures news = raised (attempts E P dry files st))
   \<and> visited st' = visited st @ files"
proof (induction files arbitrary: s f st)
  case Nil
  then show ?case by simp
next
  case (Cons p ps)
  let ?st = "st\<lparr>visited := visited st @ [p]\<rparr>"
  obtain r st0 where pf0: "process_file E P p dry st = (r, st0)" by (cases "process_file E P p dry st")
  define st1 where "st1 = st0\<lparr>visited := visited st @ [p]\<rparr>"
  have pf: "process_file E P p dry ?st = (r, st1)"
    using pf0 by (simp add: process_file_visited st1_def)
  from process_file_log[OF pf0] obtain xs where xs0: "log st0 = log st @ xs" "failures xs = []" by blast
  then have xs: "log st1 = log st @ xs" by (simp add: st1_def)
  have v1: "visited st1 = visited st @ [p]" by (simp add: st1_def)
  show ?case
  proof (cases r)
    case (Inr np)
    with pf Cons.prems have "process_files E P dry ps (s + 1, f, st1) = (s', f', st')" by simp
    from Cons.IH[OF this] obtain news where n: "f' = f + length (raised (attempts E P dry ps st1))"
       "s' + f' = s + 1 + f + length ps"
       "log st' = log st1 @ news" "failures news = raised (attempts E P dry ps st1)"
       "visited st' = visited st1 @ ps"
      by blast
    have at: "attempts E P dry ps st1 = attempts E P dry ps st0"
      by (simp add: st1_def attempts_visited)
    have a: "log st' = log st @ (xs @ news)" using n xs by simp
    have b: "failures (xs @ news) = failures news" using xs0 by (simp add: failures_append)
    have c: "attempts E P dry (p # ps) st = (p, Inr np) # attempts E P dry ps st0"
      using pf0 Inr by simp
    have d: "visited st' = visited st @ p # ps" using n(5) v1 by simp
    show ?thesis unfolding c using a b d n at by (intro conjI exI[of _ "xs @ news"]) simp_all
  next
    case (Inl e)
    let ?st2 = "st1\<lparr>log := log st1 @ [Failed p e]\<rparr>"
    let ?st2' = "st0\<lparr>log := log st0 @ [Failed p e]\<rparr>"
    from Inl pf Cons.prems have "process_files E P dry ps (s, f + 1, ?st2) = (s', f', st')" by simp
    from Cons.IH[OF this] obtain news where n: "f' = f + 1 + length (raised (attempts E P dry ps ?st2))"
       "s' + f' = s + (f + 1) + length ps"
       "log st' = log ?st2 @ news" "failures news = raised (attempts E P dry ps ?st2)"
       "visited st' = visited ?st2 @ ps"
      by blast
    have "?st2 = ?st2'\<lparr>visited := visited st @ [p]\<rparr>" by (simp add: st1_def)
    then have at: "attempts E P dry ps ?st2 = attempts E P dry ps ?st2'"
      by (simp only: attempts_visited)
    have a: "log st' = log st @ (xs @ Failed p e # news)" using n xs by simp
    have b: "failures (xs @ Failed p e # news) = (p, e) # failures news" using xs0 by (simp add: failures_append)
    have c: "attempts E P dry (p # ps) st = (p, Inl e) # attempts E P dry ps ?st2'"
      using pf0 Inl by simp
    have d: "visited st' = visited st @ p # ps" using n(5) v1 by simp
    show ?thesis unfolding c using a b d n at
      by (intro conjI exI[of _ "xs @ Failed p e # news"]) simp_all
  qed
qed

subsection \<open>Paths stay distinct\<close>

lemma keys_moved_set:
  "k \<in> fst ` set (moved src dst fs0) \<Longrightarrow>
     (k = dst \<and> src \<in> fst ` set fs0) \<or> (k \<in> fst ` set fs0 \<and> k \<noteq> dst \<and> k \<noteq> src)"
proof -
  assume "k \<in> fst ` set (moved src dst fs0)"
  then obtain n where "(k, n) \<in> set (moved src dst fs0)" by auto
  then obtain q where q: "(q, n) \<in> set fs0" "q \<noteq> dst" "k = (if q = src then dst else q)"
    by (auto simp: moved_def split: if_splits)
  from q(1) have "q \<in> fst ` set fs0" by (rule rev_image_eqI) simp
  with q(2,3) show ?thesis by (cases "q = src") auto
qed

lemma distinct_moved: "distinct (map fst fs0) \<Longrightarrow> distinct (map fst (moved src dst fs0))"
proof (induction fs0)
  case Nil
  show ?case by (simp add: moved_Nil)
next
  case (Cons a fs0)
  obtain q n where a: "a = (q, n)" by (cases a)
  from Cons.prems have q: "q \<notin> fst ` set fs0" and d: "distinct (map fst fs0)" by (auto simp: a)
  from Cons.IH[OF d] have ih: "distinct (map fst (moved src dst fs0))" .
  show ?case
  proof (cases "q = dst")
    case True
    with ih show ?thesis by (simp add: a moved_Cons)
  next
    case False
    have "(if q = src then dst else q) \<notin> fst ` set (moved src dst fs0)"
    proof
      assume "(if q = src then dst else q) \<in> fst ` set (moved src dst fs0)"
      from keys_moved_set[OF this] q False show False by (auto split: if_splits)
    qed
    with ih False show ?thesis by (cases "q = src") (simp_all add: a moved_Cons)
  qed
qed

lemma process_file_distinct:
  assumes d: "distinct (map fst (fs st))" and pf: "process_file E P p dry st = (r, st1)"
  shows "distinct (map fst (fs st1))"
proof (cases dry)
  case True
  with pf process_file_dry[of E P p st] d show ?thesis by auto
next
  case False
  obtain r0 st0 where c: "(if convert_content P then convert_file_content E p st else (None, st)) = (r0, st0)"
    by (cases "(if convert_content P then convert_file_content E p st else (None, st))")
  have k0: "map fst (fs st0) = map fst (fs st)"
  proof (cases "convert_content P")
    case True
    with c have "convert_file_content E p st = (r0, st0)" by simp
    then show ?thesis by (rule convert_file_content_keys)
  next
    case False
    with c show ?thesis by auto
  qed
  with d have d0: "distinct (map fst (fs st0))" by simp
  have "fs st1 = fs st0 \<or> fs st1 = moved p (new_path_of E P p) (fs st0)"
  proof (cases r0)
    case (Some e)
    with pf False c show ?thesis by (auto simp: process_file_def Let_def)
  next
    case None
    show ?thesis
    proof (cases "rename_files P \<and> new_path_of E P p \<noteq> p")
      case False
      with None pf \<open>\<not> dry\<close> c show ?thesis by (auto simp: process_file_def Let_def)
    next
      case True
      show ?thesis
      proof (cases "rename_file p (new_path_of E P p) (fs st0)")
        case (Inl e)
        with True None pf \<open>\<not> dry\<close> c show ?thesis by (auto simp: process_file_def Let_def)
      next
        case (Inr fs2)
        from rename_file_Inr[OF Inr] have "fs2 = moved p (new_path_of E P p) (fs st0)" .
        with Inr True None pf \<open>\<not> dry\<close> c show ?thesis by (auto simp: process_file_def Let_def)
      qed
    qed
  qed
  with d0 show ?thesis by (auto simp: distinct_moved)
qed

lemma process_files_distinct:
  "distinct (map fst (fs st)) \<Longrightarrow> process_files E P dry files (s, f, st) = (s', f', st')
     \<Longrightarrow> distinct (map fst (fs st'))"
proof (induction files arbitrary: s f st)
  case Nil
  then show ?case by simp
next
  case (Cons p ps)
  let ?st = "st\<lparr>visited := visited st @ [p]\<rparr>"
  obtain r st1 where pf: "process_file E P p dry ?st = (r, st1)"
    by (cases "process_file E P p dry ?st")
  from Cons.prems(1) have "distinct (map fst (fs ?st))" by simp
  from process_file_distinct[OF this pf] have d1: "distinct (map fst (fs st1))" .
  show ?case
  proof (cases r)
    case (Inr np)
    with pf Cons.prems have "process_files E P dry ps (s + 1, f, st1) = (s', f', st')" by simp
    from Cons.IH[OF d1 this] show ?thesis .
  next
    case (Inl e)
    let ?st2 = "st1\<lparr>log := log st1 @ [Failed p e]\<rparr>"
    from Inl pf Cons.prems have "process_files E P dry ps (s, f + 1, ?st2) = (s', f', st')" by simp
    moreover have "distinct (map fst (fs ?st2))" using d1 by simp
    ultimately show ?thesis by (rule Cons.IH[rotated])
  qed
qed

subsection \<open>The pass over the directories and the whole run\<close>

lemma exists_iff: "exists fs0 p \<longleftrightarrow> p \<in> fst ` set fs0"
  by (simp add: exists_def lookup_def map_of_eq_None_iff)

lemma is_dir_exists: "is_dir fs0 p \<Longrightarrow> exists fs0 p"
  by (auto simp: is_dir_def exists_def split: option.splits)

lemma reprefix_id: "length q \<le> length src \<Longrightarrow> q \<noteq> src \<Longrightarrow> reprefix src dst q = q"
proof -
  assume l: "length q \<le> length src" and ne: "q \<noteq> src"
  have "\<not> prefix src q"
  proof
    assume p: "prefix src q"
    then have "length src \<le> length q" by (rule prefix_length_le)
    with l have "length src = length q" by simp
    with p have "src = q" by (auto simp: prefix_def)
    with ne show False by simp
  qed
  then show ?thesis by (simp add: reprefix_def)
qed

lemma rename_directory_step:
  assumes ex: "exists (fs st) d"
  shows "\<exists>st1. rename_directory E d st = (None, st1)
           \<and> (\<forall>q. exists (fs st) q \<and> length q \<le> length d \<and> q \<noteq> d \<longrightarrow> exists (fs st1) q)
           \<and> (\<exists>xs. log st1 = log st @ xs \<and> failures xs = [])
           \<and> visited st1 = visited st"
proof (cases "convert E (name_of d) \<noteq> name_of d
              \<and> \<not> exists (fs st) (joinpath (parent d) (convert E (name_of d)))")
  case False
  then have "rename_directory E d st = (None, st)"
    by (auto simp: rename_directory_def Let_def)
  then show ?thesis by simp
next
  case True
  let ?t = "joinpath (parent d) (convert E (name_of d))"
  let ?fs1 = "map (\<lambda>(q, n). (reprefix d ?t q, n)) (fs st)"
  let ?st1 = "st\<lparr>fs := ?fs1, log := log st @ [RenamedDirectory (name_of d) (convert E (name_of d))]\<rparr>"
  from True ex have r: "rename_directory E d st = (None, ?st1)"
    by (simp add: rename_directory_def rename_dir_def Let_def)
  have k: "\<forall>q. exists (fs st) q \<and> length q \<le> length d \<and> q \<noteq> d \<longrightarrow> exists (fs ?st1) q"
  proof (intro allI impI)
    fix q assume h: "exists (fs st) q \<and> length q \<le> length d \<and> q \<noteq> d"
    then obtain n where n: "(q, n) \<in> set (fs st)" by (auto simp: exists_iff)
    from h have "reprefix d ?t q = q" by (simp add: reprefix_id)
    with n have "(q, n) \<in> set ?fs1" by (auto intro: rev_image_eqI)
    then have "q \<in> fst ` set ?fs1" by (rule rev_image_eqI) simp
    then show "exists (fs ?st1) q" by (simp add: exists_iff)
  qed
  have l: "\<exists>xs. log ?st1 = log st @ xs \<and> failures xs = []" by simp
  have v: "visited ?st1 = visited st" by simp
  from r k l v show ?thesis by blast
qed

lemma rename_each_ok:
  "distinct ds \<Longrightarrow> sorted (map (\<lambda>p. - int (length p)) ds) \<Longrightarrow> \<forall>d \<in> set ds. exists (fs st) d
     \<Longrightarrow> \<exists>st'. rename_each E ds st = (None, st')
           \<and> (\<exists>xs. log st' = log st @ xs \<and> failures xs = [])
           \<and> visited st' = visited st @ ds"
proof (induction ds arbitrary: st)
  case Nil
  then show ?case by simp
next
  case (Cons d ds)
  let ?st = "st\<lparr>visited := visited st @ [d]\<rparr>"
  from Cons.prems(3) have "exists (fs ?st) d" by simp
  from rename_directory_step[OF this, of E] obtain st1 xs where
    r: "rename_directory E d ?st = (None, st1)"
    and k: "\<forall>q. exists (fs ?st) q \<and> length q \<le> length d \<and> q \<noteq> d \<longrightarrow> exists (fs st1) q"
    and l: "log st1 = log ?st @ xs" "failures xs = []"
    and v: "visited st1 = visited ?st" by blast
  have "\<forall>q \<in> set ds. exists (fs st1) q"
  proof
    fix q assume q: "q \<in> set ds"
    with Cons.prems(1) have "q \<noteq> d" by auto
    moreover from q Cons.prems(2) have "length q \<le> length d" by auto
    moreover from q Cons.prems(3) have "exists (fs ?st) q" by simp
    ultimately show "exists (fs st1) q" using k by blast
  qed
  moreover from Cons.prems have "distinct ds" "sorted (map (\<lambda>p. - int (length p)) ds)" by simp_all
  ultimately obtain st' ys where
    s: "rename_each E ds st1 = (None, st')" "log st' = log st1 @ ys" "failures ys = []"
       "visited st' = visited st1 @ ds"
    using Cons.IH[of st1] by blast
  from r s(1) have "rename_each E (d # ds) st = (None, st')" by simp
  moreover have "log st' = log st @ (xs @ ys)" using l s by simp
  moreover have "failures (xs @ ys) = []" using l s by (simp add: failures_append)
  moreover have "visited st' = visited st @ d # ds" using s(4) v by simp
  ultimately show ?case by blast
qed

lemma rename_directories_ok:
  assumes "distinct (map fst (fs st))"
  shows "\<exists>st'. rename_directories E source_dir st = (None, st')
           \<and> (\<exists>xs. log st' = log st @ xs \<and> failures xs = [])
           \<and> visited st' = visited st @ directories_in_order source_dir (fs st)"
  unfolding rename_directories_def directories_in_order_def sort_deepest_first_def
proof (rule rename_each_ok)
  show "distinct (sort_key (\<lambda>p. - int (length p)) (filter (is_dir (fs st)) (rglob source_dir (fs st))))"
    using assms by (simp add: distinct_rglob)
  show "sorted (map (\<lambda>p. - int (length p))
          (sort_key (\<lambda>p. - int (length p)) (filter (is_dir (fs st)) (rglob source_dir (fs st)))))"
    by (rule sorted_sort_key)
  show "\<forall>d \<in> set (sort_key (\<lambda>p. - int (length p)) (filter (is_dir (fs st)) (rglob source_dir (fs st)))).
          exists (fs st) d"
    by (auto simp: is_dir_exists)
qed









subsection \<open>The order of the run\<close>

lemma is_dir_set_content: "is_dir (set_content p b fs0) q = is_dir fs0 q"
proof (cases "q = p")
  case False
  then show ?thesis by (simp add: is_dir_def lookup_set_content_other)
next
  case True
  show ?thesis
  proof (cases "lookup fs0 p")
    case None
    with True show ?thesis by (simp add: is_dir_def lookup_set_content_same)
  next
    case (Some n)
    with True show ?thesis by (cases n) (simp_all add: is_dir_def lookup_set_content_same)
  qed
qed

lemma convert_file_content_dirs:
  assumes "convert_file_content E p st = (r, st0)"
  shows "is_dir (fs st0) q = is_dir (fs st) q"
proof (cases "read_file_with_encoding E (fs st) p")
  case (Inl e)
  with assms show ?thesis by (auto simp: convert_file_content_def)
next
  case (Inr ce)
  obtain c enc where ce: "ce = (c, enc)" by (cases ce)
  obtain w fs1 where w: "write_file_with_encoding E p (convert E c) ''utf-8'' (fs st) = (w, fs1)"
    by (cases "write_file_with_encoding E p (convert E c) ''utf-8'' (fs st)")
  from read_is_file[OF Inr] obtain w0 b where lk: "lookup (fs st) p = Some (File True w0 b)"
    by blast
  have "fs1 = fs st \<or> (\<exists>b'. fs1 = set_content p b' (fs st))"
  proof (cases w0)
    case False
    with w lk show ?thesis by (simp add: write_file_with_encoding_def)
  next
    case True
    with w lk show ?thesis
      by (cases "encode E ''utf-8'' (convert E c)") (auto simp: write_file_with_encoding_def)
  qed
  then have k: "is_dir fs1 q = is_dir (fs st) q" by (auto simp: is_dir_set_content)
  show ?thesis
  proof (cases w)
    case None
    with assms Inr ce w k show ?thesis by (auto simp: convert_file_content_def Let_def)
  next
    case (Some e)
    with assms Inr ce w k show ?thesis by (auto simp: convert_file_content_def Let_def)
  qed
qed

lemma is_dir_moved:
  assumes "src \<noteq> dst" "\<not> is_dir fs0 src" "\<not> is_dir fs0 dst"
  shows "is_dir (moved src dst fs0) q = is_dir fs0 q"
proof -
  consider "q = dst" | "q = src" "q \<noteq> dst" | "q \<noteq> src" "q \<noteq> dst" by blast
  then show ?thesis
  proof cases
    case 1
    with assms show ?thesis by (simp add: is_dir_def lookup_moved_dst)
  next
    case 2
    with assms show ?thesis by (simp add: is_dir_def lookup_moved_src)
  next
    case 3
    then show ?thesis by (simp add: is_dir_def lookup_moved_other)
  qed
qed

lemma process_file_dirs:
  assumes nd: "\<not> is_dir (fs st) p" and pf: "process_file E P p dry st = (r, st1)"
  shows "is_dir (fs st1) q = is_dir (fs st) q"
proof (cases dry)
  case True
  with pf process_file_dry[of E P p st] show ?thesis by auto
next
  case False
  obtain r0 st0 where c: "(if convert_content P then convert_file_content E p st else (None, st)) = (r0, st0)"
    by (cases "(if convert_content P then convert_file_content E p st else (None, st))")
  have k0: "is_dir (fs st0) x = is_dir (fs st) x" for x
  proof (cases "convert_content P")
    case True
    with c have "convert_file_content E p st = (r0, st0)" by simp
    then show ?thesis by (rule convert_file_content_dirs)
  next
    case False
    with c show ?thesis by auto
  qed
  have "fs st1 = fs st0 \<or> (new_path_of E P p \<noteq> p \<and> \<not> is_dir (fs st0) (new_path_of E P p)
          \<and> fs st1 = moved p (new_path_of E P p) (fs st0))"
  proof (cases r0)
    case (Some e)
    with pf False c show ?thesis by (auto simp: process_file_def Let_def)
  next
    case None
    show ?thesis
    proof (cases "rename_files P \<and> new_path_of E P p \<noteq> p")
      case no: False
      with None pf False c show ?thesis by (auto simp: process_file_def Let_def)
    next
      case yes: True
      show ?thesis
      proof (cases "rename_file p (new_path_of E P p) (fs st0)")
        case (Inl e)
        with yes None pf False c show ?thesis by (auto simp: process_file_def Let_def)
      next
        case (Inr fs2)
        from rename_file_Inr[OF Inr] have m: "fs2 = moved p (new_path_of E P p) (fs st0)" .
        from Inr have "\<not> is_dir (fs st0) (new_path_of E P p)"
          by (auto simp: rename_file_def split: if_splits)
        with m Inr yes None pf False c show ?thesis by (auto simp: process_file_def Let_def)
      qed
    qed
  qed
  then show ?thesis
  proof
    assume "fs st1 = fs st0"
    then show ?thesis by (simp add: k0)
  next
    assume h: "new_path_of E P p \<noteq> p \<and> \<not> is_dir (fs st0) (new_path_of E P p)
          \<and> fs st1 = moved p (new_path_of E P p) (fs st0)"
    from nd have "\<not> is_dir (fs st0) p" by (simp add: k0)
    with h have "is_dir (fs st1) q = is_dir (fs st0) q" by (auto simp: is_dir_moved)
    then show ?thesis by (simp add: k0)
  qed
qed

lemma process_files_dirs:
  "\<forall>p \<in> set files. \<not> is_dir (fs st) p \<Longrightarrow> process_files E P dry files (s, f, st) = (s', f', st')
     \<Longrightarrow> is_dir (fs st') q = is_dir (fs st) q"
proof (induction files arbitrary: s f st)
  case Nil
  then show ?case by simp
next
  case (Cons p ps)
  let ?st = "st\<lparr>visited := visited st @ [p]\<rparr>"
  obtain r st1 where pf: "process_file E P p dry ?st = (r, st1)"
    by (cases "process_file E P p dry ?st")
  from Cons.prems(1) have "\<not> is_dir (fs ?st) p" by simp
  from process_file_dirs[OF this pf] have k: "is_dir (fs st1) x = is_dir (fs st) x" for x by simp
  with Cons.prems(1) have nd: "\<forall>p \<in> set ps. \<not> is_dir (fs st1) p" by simp
  show ?case
  proof (cases r)
    case (Inr np)
    with pf Cons.prems have "process_files E P dry ps (s + 1, f, st1) = (s', f', st')" by simp
    from Cons.IH[OF nd this] k show ?thesis by simp
  next
    case (Inl e)
    let ?st2 = "st1\<lparr>log := log st1 @ [Failed p e]\<rparr>"
    from Inl pf Cons.prems have r: "process_files E P dry ps (s, f + 1, ?st2) = (s', f', st')" by simp
    from nd have "\<forall>p \<in> set ps. \<not> is_dir (fs ?st2) p" by simp
    from Cons.IH[OF this r] k show ?thesis by simp
  qed
qed

lemma is_file_not_dir: "is_file fs0 p \<Longrightarrow> \<not> is_dir fs0 p"
  by (auto simp: is_file_def is_dir_def split: option.splits node.splits)

lemma is_dir_key: "is_dir fs0 p \<Longrightarrow> p \<in> fst ` set fs0"
  by (auto simp: is_dir_def lookup_def split: option.splits dest: map_of_SomeD intro: rev_image_eqI)

lemma set_directories_in_order:
  "set (directories_in_order d fs0) = {p. strict_prefix d p \<and> is_dir fs0 p}"
  by (auto simp: directories_in_order_def set_sort_deepest_first set_rglob is_dir_key)

lemma set_files_in_order:
  "set (files_in_order E P d fs0) = set (scan_directory E P d fs0)"
  by (simp add: files_in_order_def set_sort_deepest_first)

lemma dirs_nth:
  assumes "k \<le> l" "l < length (directories_in_order d fs0)"
  shows "length (directories_in_order d fs0 ! l) \<le> length (directories_in_order d fs0 ! k)"
  using assms unfolding directories_in_order_def
  by (intro deepest_first_nth) (simp_all add: length_sort_deepest_first)

lemma files_nth:
  assumes "k \<le> l" "l < length (files_in_order E P d fs0)"
  shows "length (files_in_order E P d fs0 ! l) \<le> length (files_in_order E P d fs0 ! k)"
  using assms unfolding files_in_order_def
  by (intro deepest_first_nth) (simp_all add: length_sort_deepest_first)

text \<open>
  Claim C2. On a tree whose paths are distinct, the paths that the two loops of
  \<open>process_directory\<close> take up, in the order of the run, are the scanned files in
  descending order of depth, followed, in apply mode with renaming, by the directories
  below the root in descending order of depth, as the tree is after the loop over the
  files; these are all the directories of the tree below the root. In this order a
  directory comes strictly after every path of which it is a proper prefix, file or
  directory; and among the files, and among the directories, a path with more
  segments comes strictly before one with fewer.
\<close>

theorem deepest_first_order:
  assumes d: "distinct (map fst (fs st))"
    and files: "files = files_in_order E P source_dir (fs st)"
    and loop: "process_files E P dry_run files (0, 0, st) = (s, f, st1)"
    and dirs: "dirs = (if rename_files P \<and> \<not> dry_run then directories_in_order source_dir (fs st1) else [])"
    and tr: "tr = files @ dirs"
  shows "visited (snd (process_directory E P source_dir dry_run st)) = visited st @ tr
       \<and> (rename_files P \<and> \<not> dry_run \<longrightarrow>
            set dirs = {p. strict_prefix source_dir p \<and> is_dir (fs st) p})
       \<and> (\<forall>i k. i < length tr \<and> k < length tr \<and> is_dir (fs st) (tr ! k)
                 \<and> strict_prefix (tr ! k) (tr ! i) \<longrightarrow> i < k)
       \<and> (\<forall>i k. i < length tr \<and> k < length tr \<and> length (tr ! k) < length (tr ! i)
                 \<and> (k < length files \<longleftrightarrow> i < length files) \<longrightarrow> i < k)"
proof -
  let ?files = "files_in_order E P source_dir (fs st)"
  note loop = loop[unfolded files] and tr = tr[unfolded files]
  have files_are_files: "\<forall>p \<in> set ?files. is_file (fs st) p"
    by (simp add: set_files_in_order set_scan_directory)
  then have nd: "\<forall>p \<in> set ?files. \<not> is_dir (fs st) p" by (simp add: is_file_not_dir)
  from process_files_dirs[OF nd loop] have keep: "is_dir (fs st1) q = is_dir (fs st) q" for q .
  from process_files_attempts[OF loop] have v1: "visited st1 = visited st @ ?files" by simp
  from process_files_distinct[OF d loop] have d1: "distinct (map fst (fs st1))" .
  have dirs_sorted: "length (dirs ! l) \<le> length (dirs ! k)" if "k \<le> l" "l < length dirs" for k l
    using that dirs by (cases "rename_files P \<and> \<not> dry_run") (simp_all add: dirs_nth)
  have a: "visited (snd (process_directory E P source_dir dry_run st)) = visited st @ tr"
  proof (cases "rename_files P \<and> \<not> dry_run")
    case False
    with loop have "process_directory E P source_dir dry_run st = (Inr (s, f), st1)"
      by (auto simp: process_directory_def Let_def)
    with False v1 show ?thesis by (auto simp: tr dirs)
  next
    case True
    from rename_directories_ok[OF d1, of E source_dir] obtain st2 where
      rd: "rename_directories E source_dir st1 = (None, st2)"
      and v2: "visited st2 = visited st1 @ directories_in_order source_dir (fs st1)" by blast
    from True loop rd have "process_directory E P source_dir dry_run st = (Inr (s, f), st2)"
      by (simp add: process_directory_def Let_def)
    with True v1 v2 show ?thesis by (simp add: tr dirs)
  qed
  have b: "rename_files P \<and> \<not> dry_run \<longrightarrow>
            set dirs = {p. strict_prefix source_dir p \<and> is_dir (fs st) p}"
    by (simp add: dirs set_directories_in_order keep)
  have c: "\<forall>i k. i < length tr \<and> k < length tr \<and> is_dir (fs st) (tr ! k)
                 \<and> strict_prefix (tr ! k) (tr ! i) \<longrightarrow> i < k"
  proof (intro allI impI)
    fix i k
    assume h: "i < length tr \<and> k < length tr \<and> is_dir (fs st) (tr ! k)
                 \<and> strict_prefix (tr ! k) (tr ! i)"
    have kf: "\<not> k < length ?files"
    proof
      assume "k < length ?files"
      then have "tr ! k \<in> set ?files" by (simp add: tr nth_append)
      with nd h show False by blast
    qed
    show "i < k"
    proof (cases "i < length ?files")
      case True
      with kf show ?thesis by simp
    next
      case False
      define i' where "i' = i - length ?files"
      define k' where "k' = k - length ?files"
      from False kf h have ik: "i' < length dirs" "k' < length dirs"
        "tr ! i = dirs ! i'" "tr ! k = dirs ! k'"
        by (auto simp: i'_def k'_def tr nth_append)
      with h have lt: "length (dirs ! k') < length (dirs ! i')" by (simp add: prefix_length_less)
      have "i' < k'"
      proof (rule ccontr)
        assume "\<not> i' < k'"
        then have "k' \<le> i'" by simp
        from dirs_sorted[OF this ik(1)] lt show False by simp
      qed
      with False kf show ?thesis by (simp add: i'_def k'_def)
    qed
  qed
  have e: "\<forall>i k. i < length tr \<and> k < length tr \<and> length (tr ! k) < length (tr ! i)
                 \<and> (k < length ?files \<longleftrightarrow> i < length ?files) \<longrightarrow> i < k"
  proof (intro allI impI)
    fix i k
    assume h: "i < length tr \<and> k < length tr \<and> length (tr ! k) < length (tr ! i)
                 \<and> (k < length ?files \<longleftrightarrow> i < length ?files)"
    show "i < k"
    proof (rule ccontr)
      assume "\<not> i < k"
      then have ki: "k \<le> i" by simp
      show False
      proof (cases "i < length ?files")
        case True
        with ki have "k < length ?files" by simp
        with True have "tr ! i = ?files ! i" "tr ! k = ?files ! k" by (simp_all add: tr nth_append)
        moreover from files_nth[OF ki True] have "length (?files ! i) \<le> length (?files ! k)" .
        ultimately show False using h by simp
      next
        case False
        with h have kf: "\<not> k < length ?files" by simp
        define i' where "i' = i - length ?files"
        define k' where "k' = k - length ?files"
        from False kf h ki have ik: "i' < length dirs" "k' \<le> i'"
          "tr ! i = dirs ! i'" "tr ! k = dirs ! k'"
          by (auto simp: i'_def k'_def tr nth_append)
        from dirs_sorted[OF ik(2) ik(1)] ik h show False by simp
      qed
    qed
  qed
  from a b c e show ?thesis unfolding files by blast
qed

lemmas nested_paths = nested_dir_def nested_file_def sample_paths

lemma nested_files:
  "files_in_order sample_env renaming_only root (fs nested_state) = [nested_file]"
  by (simp add: files_in_order_def sort_deepest_first_def scan_directory_def rglob_def
        nested_state_def nested_fs_def nested_paths is_file_def lookup_def
        renaming_only_def FileProcessor_def extensions_or_default_def sample_env_def
        name_of_def suffix_of_def dot_def slash_def Let_def)

lemma nested_new_path: "new_path_of sample_env renaming_only nested_file = nested_file"
  by (simp add: new_path_of_def nested_file_def name_of_snoc parent_snoc slash_def dot_def
        ascii_simps renaming_only_def FileProcessor_def)
     (simp add: convert_filename_def str_name_single joinpath_single stem_of_def suffix_of_def
        convert_def slash_def dot_def Let_def sample_env_def sample_cc_def ascii_simps)

lemma nested_loop:
  "process_files sample_env renaming_only False [nested_file] (0, 0, nested_state)
     = (1, 0, nested_state\<lparr>visited := [nested_file]\<rparr>)"
proof -
  have cv: "\<not> convert_content renaming_only" by (simp add: renaming_only_def FileProcessor_def)
  show ?thesis
    by (simp add: process_file_def nested_new_path cv Let_def nested_state_def)
qed

lemma nested_dirs:
  "directories_in_order root nested_fs = [nested_dir, sample_dir]"
  by (simp add: directories_in_order_def rglob_def nested_fs_def nested_paths is_dir_def
        lookup_def sort_deepest_first_def)

theorem deepest_first_order_witness:
  "visited (snd (process_directory sample_env renaming_only root False nested_state))
     = [nested_file, nested_dir, sample_dir]"
proof -
  have d: "distinct (map fst (fs nested_state))"
    by (simp add: nested_state_def nested_fs_def nested_paths)
  have files: "[nested_file] = files_in_order sample_env renaming_only root (fs nested_state)"
    by (simp add: nested_files)
  have rn: "rename_files renaming_only" by (simp add: renaming_only_def FileProcessor_def)
  have dirs: "[nested_dir, sample_dir] =
      (if rename_files renaming_only \<and> \<not> False
       then directories_in_order root (fs (nested_state\<lparr>visited := [nested_file]\<rparr>)) else [])"
    by (simp add: rn nested_state_def nested_dirs)
  have tr: "[nested_file, nested_dir, sample_dir] = [nested_file] @ [nested_dir, sample_dir]"
    by simp
  from deepest_first_order[OF d files nested_loop dirs tr] show ?thesis
    by (simp add: nested_state_def)
qed

end
